theory Spec2Isabelle
  imports Complex_Main
begin

section \<open>JavaScript strings\<close>

text \<open>
  A JavaScript string is a sequence of UTF-16 code units. A code unit is modelled by its
  number, so a string is a list of naturals. \<open>js\<close> turns an ASCII literal into that form;
  a line feed is the code unit 10 and a carriage return 13.
\<close>

type_synonym jsstring = "nat list"

definition js :: "string \<Rightarrow> jsstring" where
  "js s = map of_char s"

section \<open>The regular expressions of src/index.js\<close>

text \<open>
  Character classes as the source's patterns write them: a literal code unit, a letter
  under the \<open>i\<close> flag (given by its lower-case and upper-case code unit; without the
  \<open>u\<close> flag no code unit above 127 folds onto an ASCII letter), \<open>\s\<close>, \<open>\S\<close>, a bracket
  union such as \<open>[\s\S]\<close>, and a negated bracket such as \<open>[^\n\r]\<close>.
\<close>

datatype cls =
    Lit nat
  | LitCI nat nat
  | WS
  | NonWS
  | Union cls cls
  | NoneOf "nat list"

text \<open>
  \<open>\s\<close> in ECMAScript: TAB, LF, VT, FF, CR, SPACE, NBSP, U+1680, U+2000 to U+200A,
  U+2028, U+2029, U+202F, U+205F, U+3000 and U+FEFF.
\<close>

definition isWhiteSpace :: "nat \<Rightarrow> bool" where
  "isWhiteSpace c \<longleftrightarrow>
     c = 9 \<or> c = 10 \<or> c = 11 \<or> c = 12 \<or> c = 13 \<or> c = 32 \<or> c = 160 \<or> c = 5760 \<or>
     (8192 \<le> c \<and> c \<le> 8202) \<or> c = 8232 \<or> c = 8233 \<or> c = 8239 \<or> c = 8287 \<or>
     c = 12288 \<or> c = 65279"

fun inCls :: "cls \<Rightarrow> nat \<Rightarrow> bool" where
  "inCls (Lit a) c = (c = a)"
| "inCls (LitCI lo up) c = (c = lo \<or> c = up)"
| "inCls WS c = isWhiteSpace c"
| "inCls NonWS c = (\<not> isWhiteSpace c)"
| "inCls (Union a b) c = (inCls a c \<or> inCls b c)"
| "inCls (NoneOf xs) c = (c \<notin> set xs)"

text \<open>
  The regular expressions the source uses: one code unit of a class, the empty pattern,
  sequence, alternation, and the greedy (\<open>*\<close>) and lazy (\<open>*?\<close>) star of a class. Every
  star in the source is over a single class, and \<open>\s+\<close> is \<open>\s\<close> followed by \<open>\s*\<close>.
\<close>

datatype rx =
    One cls
  | Eps
  | Seq rx rx
  | Alt rx rx
  | StarG cls
  | StarL cls

text \<open>
  The backtracking matcher. \<open>matchesAt r s\<close> lists, in the order a backtracking engine
  tries them, the numbers of code units that \<open>r\<close> can consume at the start of \<open>s\<close>. A greedy
  star tries one more code unit before it tries to stop, a lazy star the other way round.
  The match the engine reports is the first of the list.
\<close>

fun matchesAt :: "rx \<Rightarrow> jsstring \<Rightarrow> nat list" where
  "matchesAt (One p) [] = []"
| "matchesAt (One p) (c # cs) = (if inCls p c then [1] else [])"
| "matchesAt Eps s = [0]"
| "matchesAt (Seq a b) s =
     concat (map (\<lambda>k. map (\<lambda>j. k + j) (matchesAt b (drop k s))) (matchesAt a s))"
| "matchesAt (Alt a b) s = matchesAt a s @ matchesAt b s"
| "matchesAt (StarG p) [] = [0]"
| "matchesAt (StarG p) (c # cs) =
     (if inCls p c then map Suc (matchesAt (StarG p) cs) @ [0] else [0])"
| "matchesAt (StarL p) [] = [0]"
| "matchesAt (StarL p) (c # cs) =
     (if inCls p c then 0 # map Suc (matchesAt (StarL p) cs) else [0])"

definition execAt :: "rx \<Rightarrow> jsstring \<Rightarrow> nat option" where
  "execAt r s = (case matchesAt r s of [] \<Rightarrow> None | k # _ \<Rightarrow> Some k)"

text \<open>
  A regular expression with the \<open>g\<close> flag is applied from left to right: at each position
  the engine tries a match; a match of \<open>k > 0\<close> code units moves the position behind it, an
  empty match (and no match) moves it by one code unit. None of the patterns has an anchor
  or a look-behind, so a match at a position depends only on the text from there on.

  \<open>matchAll r s\<close> are the matched substrings, in order; \<open>String_match\<close> is
  \<open>String.prototype.match\<close>, which gives \<open>null\<close> when there is none;
  \<open>String_replace_empty\<close> is \<open>s.replace(r, "")\<close>.
\<close>

fun matchAll :: "rx \<Rightarrow> jsstring \<Rightarrow> jsstring list" where
  "matchAll r [] = (case execAt r [] of None \<Rightarrow> [] | Some k \<Rightarrow> [[]])"
| "matchAll r (c # cs) =
     (case execAt r (c # cs) of
        None \<Rightarrow> matchAll r cs
      | Some k \<Rightarrow> take k (c # cs) # matchAll r (drop (k - 1) cs))"

definition String_match :: "rx \<Rightarrow> jsstring \<Rightarrow> jsstring list option" where
  "String_match r s = (case matchAll r s of [] \<Rightarrow> None | m # ms \<Rightarrow> Some (m # ms))"

fun String_replace_empty :: "rx \<Rightarrow> jsstring \<Rightarrow> jsstring" where
  "String_replace_empty r [] = []"
| "String_replace_empty r (c # cs) =
     (case execAt r (c # cs) of
        None \<Rightarrow> c # String_replace_empty r cs
      | Some k \<Rightarrow> (if k = 0 then [c] else []) @ String_replace_empty r (drop (k - 1) cs))"

text \<open>A literal string as a pattern.\<close>

definition lit :: "string \<Rightarrow> rx" where
  "lit s = foldr (\<lambda>c r. Seq (One (Lit (of_char c))) r) s Eps"

text \<open>
  \<open>ESLINT_DIRECTIVE_PATTERNS\<close> (src/index.js, lines 110 to 119), in the source's order:
  four block-comment shapes, then four line-comment shapes.
\<close>

definition blockDirective :: "string \<Rightarrow> rx" where
  "blockDirective word =
     Seq (lit ''/*'') (Seq (StarG WS) (Seq (lit word)
       (Seq (StarL (Union WS NonWS)) (lit ''*/''))))"

definition lineDirective :: "string \<Rightarrow> rx" where
  "lineDirective word =
     Seq (lit ''//'') (Seq (StarG WS) (Seq (lit word) (StarG (NoneOf [10, 13]))))"

text \<open>The fourth pattern, \<open>/\/\*\s*eslint\s+[^*]*\*\//g\<close>.\<close>

definition genericBlockDirective :: rx where
  "genericBlockDirective =
     Seq (lit ''/*'') (Seq (StarG WS) (Seq (lit ''eslint'')
       (Seq (One WS) (Seq (StarG WS) (Seq (StarG (NoneOf [42])) (lit ''*/''))))))"

definition ESLINT_DIRECTIVE_PATTERNS :: "rx list" where
  "ESLINT_DIRECTIVE_PATTERNS =
     [ blockDirective ''eslint-disable'',
       blockDirective ''eslint-enable'',
       blockDirective ''eslint-env'',
       genericBlockDirective,
       lineDirective ''eslint-disable'',
       lineDirective ''eslint-enable'',
       lineDirective ''eslint-env'',
       lineDirective ''eslint-'' ]"

section \<open>The comment scrubber\<close>

record strip_result =
  modified :: jsstring
  removedCount :: nat

text \<open>
  One round of the \<open>forEach\<close> of \<open>stripEslintCommentsFromContent\<close>: count the matches of
  the pattern in the text so far, then delete them.
\<close>

definition stripStep :: "rx \<Rightarrow> strip_result \<Rightarrow> strip_result" where
  "stripStep regex acc =
     \<lparr> modified = String_replace_empty regex (modified acc),
       removedCount =
         (case String_match regex (modified acc) of
            None \<Rightarrow> removedCount acc
          | Some matches \<Rightarrow> removedCount acc + length matches) \<rparr>"

definition stripEslintCommentsFromContent :: "jsstring \<Rightarrow> strip_result" where
  "stripEslintCommentsFromContent content =
     fold stripStep ESLINT_DIRECTIVE_PATTERNS \<lparr> modified = content, removedCount = 0 \<rparr>"

text \<open>
  Every directive pattern begins with the literal \<open>/\<close>. \<open>startsWith r c\<close> says that \<open>r\<close> is
  a sequence whose first atom is the literal code unit \<open>c\<close>.
\<close>

fun startsWith :: "rx \<Rightarrow> nat \<Rightarrow> bool" where
  "startsWith (One (Lit a)) c = (a = c)"
| "startsWith (Seq a b) c = startsWith a c"
| "startsWith _ c = False"

text \<open>The directive line of the spec's scenario C.\<close>

definition nextLineDirective :: jsstring where
  "nextLineDirective = js ''// eslint-disable-next-line no-unused-vars''"

text \<open>The text after one scrub, for repeated scrubbing.\<close>

definition scrubText :: "jsstring \<Rightarrow> jsstring" where
  "scrubText c = modified (stripEslintCommentsFromContent c)"

section \<open>The file walk\<close>

text \<open>
  A path is the list of its components below the file-system root, so the root is the
  empty list, \<open>path.join(directory, name)\<close> appends a component and \<open>path.dirname\<close>
  drops the last one; the root is its own parent.
\<close>

type_synonym path = "jsstring list"

definition path_join :: "path \<Rightarrow> jsstring \<Rightarrow> path" where
  "path_join directory entryName = directory @ [entryName]"

definition path_dirname :: "path \<Rightarrow> path" where
  "path_dirname p = butlast p"

text \<open>
  What \<open>fs.readdirSync(directory, { withFileTypes: true })\<close> reports, as a tree: a regular
  file with its name and its content, a directory with its name and its entries, and
  anything else (a symbolic link, a socket) with its name. Every directory and file the
  walk reaches is taken to be readable and writable: \<open>walkAndCleanComments\<close> catches
  nothing, so a failing file-system call ends the run without a report.
\<close>

datatype dirent =
    FileEnt jsstring jsstring
  | DirEnt jsstring "dirent list"
  | OtherEnt jsstring

definition CODE_EXTENSIONS :: "jsstring list" where
  "CODE_EXTENSIONS =
     map js [''.js'', ''.jsx'', ''.ts'', ''.tsx'', ''.mjs'', ''.cjs'', ''.vue'', ''.svelte'',
             ''.astro'']"

definition IGNORED_DIRECTORIES :: "jsstring list" where
  "IGNORED_DIRECTORIES =
     map js [''node_modules'', ''.git'', ''dist'', ''build'', ''coverage'', ''.next'', ''.turbo'',
             ''.cache'', ''.vscode'', ''.idea'']"

definition shouldIgnoreDir :: "jsstring \<Rightarrow> bool" where
  "shouldIgnoreDir dirName \<longleftrightarrow> dirName \<in> set IGNORED_DIRECTORIES"

text \<open>
  \<open>path.extname\<close> belongs to Node's library, not to this repository: it is a parameter of
  the walk.
\<close>

definition isCodeFile :: "(path \<Rightarrow> jsstring) \<Rightarrow> path \<Rightarrow> bool" where
  "isCodeFile extname filePath \<longleftrightarrow> extname filePath \<in> set CODE_EXTENSIONS"

text \<open>
  The three counters of \<open>walkAndCleanComments\<close>, and the calls of \<open>fs.writeFileSync\<close> made
  so far, oldest first, each with its path and the content written.
\<close>

record walk_state =
  filesScanned :: nat
  filesTouched :: nat
  totalCommentsRemoved :: nat
  written :: "(path \<times> jsstring) list"

fun walkEntry :: "(path \<Rightarrow> jsstring) \<Rightarrow> path \<Rightarrow> dirent \<Rightarrow> walk_state \<Rightarrow> walk_state" where
  "walkEntry extname directory (DirEnt entryName entries) st =
     (if shouldIgnoreDir entryName then st
      else fold (walkEntry extname (path_join directory entryName)) entries st)"
| "walkEntry extname directory (OtherEnt entryName) st = st"
| "walkEntry extname directory (FileEnt entryName original) st =
     (let entryPath = path_join directory entryName in
      if \<not> isCodeFile extname entryPath then st
      else
        let st1 = st\<lparr> filesScanned := filesScanned st + 1 \<rparr>;
            result = stripEslintCommentsFromContent original
        in if removedCount result > 0
           then st1\<lparr> written := written st1 @ [(entryPath, modified result)],
                     filesTouched := filesTouched st1 + 1,
                     totalCommentsRemoved := totalCommentsRemoved st1 + removedCount result \<rparr>
           else st1)"

definition walk :: "(path \<Rightarrow> jsstring) \<Rightarrow> path \<Rightarrow> dirent list \<Rightarrow> walk_state \<Rightarrow> walk_state" where
  "walk extname directory entries st = fold (walkEntry extname directory) entries st"

text \<open>
  \<open>walkAndCleanComments(rootDir)\<close>; \<open>entries\<close> are the entries of \<open>rootDir\<close>. The name of
  \<open>rootDir\<close> itself is not looked up in the ignore set.
\<close>

definition walkAndCleanComments :: "(path \<Rightarrow> jsstring) \<Rightarrow> path \<Rightarrow> dirent list \<Rightarrow> walk_state" where
  "walkAndCleanComments extname rootDir entries =
     walk extname rootDir entries
       \<lparr> filesScanned = 0, filesTouched = 0, totalCommentsRemoved = 0, written = [] \<rparr>"

text \<open>
  The tree without what lies beneath ignored directories: every directory whose name is in
  the ignore set is emptied, at any depth.
\<close>

fun prune :: "dirent \<Rightarrow> dirent" where
  "prune (DirEnt entryName entries) =
     (if shouldIgnoreDir entryName then DirEnt entryName []
      else DirEnt entryName (map prune entries))"
| "prune (OtherEnt entryName) = OtherEnt entryName"
| "prune (FileEnt entryName original) = FileEnt entryName original"

text \<open>
  A written path is not beneath an ignored directory when it lies below \<open>rootDir\<close> and
  no directory between \<open>rootDir\<close> and the file has a name of the ignore set.
\<close>

definition notBeneathIgnored :: "path \<Rightarrow> path \<Rightarrow> bool" where
  "notBeneathIgnored rootDir p \<longleftrightarrow>
     take (length rootDir) p = rootDir \<and> length rootDir < length p \<and>
     (\<forall>d\<in>set (butlast (drop (length rootDir) p)). \<not> shouldIgnoreDir d)"

text \<open>
  The extension of the last component of a path as \<open>path.extname\<close> documents it: from the
  last dot to the end; empty when there is no dot, when the only dot is the first code
  unit, and for \<open>..\<close>. It instantiates the parameter in examples.
\<close>

definition posix_extname :: "path \<Rightarrow> jsstring" where
  "posix_extname p =
     (if p = [] then []
      else
        let base = last p;
            afterDot = length (takeWhile (\<lambda>c. c \<noteq> 46) (rev base))
        in if afterDot = length base \<or> afterDot + 1 = length base \<or> base = [46, 46] then []
           else drop (length base - 1 - afterDot) base)"

section \<open>The file system and JSON values\<close>

text \<open>
  What the prober sees of the file system: a path has no entry, or it is a regular file
  with its content read as UTF-8, or it is something \<open>fs.existsSync\<close> finds and
  \<open>fs.readFileSync\<close> fails on (a directory, a file without read permission), with the
  message of the error thrown.
\<close>

datatype fsnode = RegularFile jsstring | Unreadable jsstring

type_synonym filesystem = "path \<Rightarrow> fsnode option"

definition existsSync :: "filesystem \<Rightarrow> path \<Rightarrow> bool" where
  "existsSync fs p \<longleftrightarrow> fs p \<noteq> None"

text \<open>
  The errors of the program: \<open>CliError\<close> with its message, a \<open>TypeError\<close> of the
  language (a property of \<open>null\<close> or \<open>undefined\<close>), and any other error with its message.
\<close>

datatype error = CliError jsstring | TypeError | OtherError jsstring

text \<open>\<open>fs.readFileSync(p, "utf8")\<close>: the content, or the message of the error thrown.\<close>

definition readFileSync :: "filesystem \<Rightarrow> path \<Rightarrow> jsstring + jsstring" where
  "readFileSync fs p =
     (case fs p of
        Some (RegularFile raw) \<Rightarrow> Inr raw
      | Some (Unreadable msg) \<Rightarrow> Inl msg
      | None \<Rightarrow> Inl (js ''ENOENT: no such file or directory''))"

text \<open>
  A value that \<open>JSON.parse\<close> returns. An object is the list of its own properties in
  property order, with distinct keys. \<open>JSON.parse\<close> itself is a parameter of the functions
  below: it gives the value, or the message of the \<open>SyntaxError\<close> it throws.
\<close>

datatype json =
    JNull
  | JBool bool
  | JNum rat
  | JStr jsstring
  | JArr "json list"
  | JObj "(jsstring \<times> json) list"

type_synonym parser = "jsstring \<Rightarrow> jsstring + json"

fun truthy :: "json \<Rightarrow> bool" where
  "truthy JNull = False"
| "truthy (JBool b) = b"
| "truthy (JNum x) = (x \<noteq> 0)"
| "truthy (JStr s) = (s \<noteq> [])"
| "truthy (JArr xs) = True"
| "truthy (JObj kvs) = True"

text \<open>
  \<open>value[key]\<close> for a value other than \<open>null\<close> and a key that no prototype defines (every
  key the program reads from a parsed value is such a key): the own property of an object,
  \<open>undefined\<close> otherwise.
\<close>

fun getProp :: "json \<Rightarrow> jsstring \<Rightarrow> json option" where
  "getProp (JObj kvs) key = map_of kvs key"
| "getProp _ key = None"



text \<open>The decimal digits of an array index, and \<open>Object.keys\<close> of a truthy value.\<close>

fun decimal :: "nat \<Rightarrow> jsstring" where
  "decimal n = (if n < 10 then [48 + n] else decimal (n div 10) @ [48 + n mod 10])"

declare decimal.simps [simp del]

fun Object_keys :: "json \<Rightarrow> jsstring list" where
  "Object_keys (JObj kvs) = map fst kvs"
| "Object_keys (JArr xs) = map decimal [0..<length xs]"
| "Object_keys (JStr s) = map decimal [0..<length s]"
| "Object_keys _ = []"

section \<open>Package managers\<close>

record package_manager =
  pm_id :: jsstring
  lockFile :: "jsstring option"
  buildInstallCommand :: "jsstring \<Rightarrow> jsstring"
  buildUninstallCommand :: "jsstring list \<Rightarrow> jsstring"
  lint_run :: jsstring
  lint_fix :: jsstring

fun join :: "jsstring \<Rightarrow> jsstring list \<Rightarrow> jsstring" where
  "join sep [] = []"
| "join sep [x] = x"
| "join sep (x # y # zs) = x @ sep @ join sep (y # zs)"

definition pnpm :: package_manager where
  "pnpm = \<lparr> pm_id = js ''pnpm'', lockFile = Some (js ''pnpm-lock.yaml''),
      buildInstallCommand = (\<lambda>dependency. js ''pnpm add -D -E '' @ dependency),
      buildUninstallCommand = (\<lambda>packages. js ''pnpm remove '' @ join (js '' '') packages),
      lint_run = js ''pnpm lint'', lint_fix = js ''pnpm lint:fix'' \<rparr>"

definition yarn :: package_manager where
  "yarn = \<lparr> pm_id = js ''yarn'', lockFile = Some (js ''yarn.lock''),
      buildInstallCommand = (\<lambda>dependency. js ''yarn add -D -E '' @ dependency),
      buildUninstallCommand = (\<lambda>packages. js ''yarn remove '' @ join (js '' '') packages),
      lint_run = js ''yarn lint'', lint_fix = js ''yarn lint:fix'' \<rparr>"

definition bun :: package_manager where
  "bun = \<lparr> pm_id = js ''bun'', lockFile = Some (js ''bun.lockb''),
      buildInstallCommand = (\<lambda>dependency. js ''bun add -D -E '' @ dependency),
      buildUninstallCommand = (\<lambda>packages. js ''bun remove '' @ join (js '' '') packages),
      lint_run = js ''bun run lint'', lint_fix = js ''bun run lint:fix'' \<rparr>"

definition npm :: package_manager where
  "npm = \<lparr> pm_id = js ''npm'', lockFile = None,
      buildInstallCommand = (\<lambda>dependency. js ''npm install -D -E '' @ dependency),
      buildUninstallCommand = (\<lambda>packages. js ''npm uninstall '' @ join (js '' '') packages),
      lint_run = js ''npm run lint'', lint_fix = js ''npm run lint:fix'' \<rparr>"

text \<open>The own properties of the frozen object \<open>PACKAGE_MANAGERS\<close>.\<close>

definition PACKAGE_MANAGERS :: "(jsstring \<times> package_manager) list" where
  "PACKAGE_MANAGERS =
     [(js ''pnpm'', pnpm), (js ''yarn'', yarn), (js ''bun'', bun), (js ''npm'', npm)]"

definition PACKAGE_MANAGER_PRIORITY :: "jsstring list" where
  "PACKAGE_MANAGER_PRIORITY = map js [''pnpm'', ''yarn'', ''bun'']"

text \<open>
  \<open>PACKAGE_MANAGERS\<close> is an object literal, so its prototype is \<open>Object.prototype\<close>, and
  \<open>PACKAGE_MANAGERS[id]\<close> with an \<open>id\<close> that is not an own property gives the member of
  \<open>Object.prototype\<close> of that name when there is one. Each of these members is a function
  or an object, hence truthy.
\<close>

definition Object_prototype_keys :: "jsstring list" where
  "Object_prototype_keys =
     map js [''constructor'', ''hasOwnProperty'', ''isPrototypeOf'', ''propertyIsEnumerable'',
             ''toLocaleString'', ''toString'', ''valueOf'', ''__defineGetter__'',
             ''__defineSetter__'', ''__lookupGetter__'', ''__lookupSetter__'', ''__proto__'']"

datatype detected = Profile package_manager | PrototypeMember jsstring

definition PACKAGE_MANAGERS_get :: "jsstring \<Rightarrow> detected option" where
  "PACKAGE_MANAGERS_get ident =
     (case map_of PACKAGE_MANAGERS ident of
        Some candidate \<Rightarrow> Some (Profile candidate)
      | None \<Rightarrow> if ident \<in> set Object_prototype_keys then Some (PrototypeMember ident) else None)"

section \<open>The environment prober\<close>

record found =
  found_directory :: path
  found_file :: path
  found_name :: jsstring

function findUpwards :: "filesystem \<Rightarrow> path \<Rightarrow> jsstring list \<Rightarrow> found option" where
  "findUpwards fs current filenames =
     (case find (\<lambda>candidateName. existsSync fs (path_join current candidateName)) filenames of
        Some candidateName \<Rightarrow>
          Some \<lparr> found_directory = current, found_file = path_join current candidateName,
                 found_name = candidateName \<rparr>
      | None \<Rightarrow>
          (let parent = path_dirname current in
           if parent = current then None else findUpwards fs parent filenames))"
  by pat_completeness auto
termination
proof (relation "measure (\<lambda>(fs, current, filenames). length current)")
  show "wf (measure (\<lambda>(fs, current, filenames). length current))" by simp
next
  fix fs :: filesystem and current :: path and filenames :: "jsstring list" and parent :: path
  assume "parent = path_dirname current" and "parent \<noteq> current"
  then have "current \<noteq> []" by (auto simp: path_dirname_def)
  with \<open>parent = path_dirname current\<close>
  show "((fs, parent, filenames), (fs, current, filenames))
          \<in> measure (\<lambda>(fs, current, filenames). length current)"
    by (simp add: path_dirname_def)
qed

declare findUpwards.simps [simp del]

text \<open>
  \<open>s.split("@")[0]\<close>: the code units before the first \<open>@\<close> (code unit 64), all of \<open>s\<close> when
  it has none.
\<close>

definition beforeAt :: "jsstring \<Rightarrow> jsstring" where
  "beforeAt s = takeWhile (\<lambda>c. c \<noteq> 64) s"

text \<open>
  The closure \<open>extractFromPackageManagerField\<close> of \<open>detectPackageManager\<close>. Its \<open>try\<close>
  block covers the read, the parse and the property access, and its \<open>catch\<close> ignores
  whatever they throw.
\<close>

definition extractFromPackageManagerField ::
    "filesystem \<Rightarrow> parser \<Rightarrow> path option \<Rightarrow> detected option" where
  "extractFromPackageManagerField fs parse pkgJsonPath =
     (case pkgJsonPath of
        None \<Rightarrow> None
      | Some p \<Rightarrow>
          (case readFileSync fs p of
             Inl msg \<Rightarrow> None
           | Inr raw \<Rightarrow>
               (case parse raw of
                  Inl msg \<Rightarrow> None
                | Inr JNull \<Rightarrow> None
                | Inr parsed \<Rightarrow>
                    (case getProp parsed (js ''packageManager'') of
                       Some (JStr s) \<Rightarrow> PACKAGE_MANAGERS_get (beforeAt s)
                     | _ \<Rightarrow> None))))"

text \<open>
  Step 3 of \<open>detectPackageManager\<close>, the loop over \<open>PACKAGE_MANAGER_PRIORITY\<close>. Each
  identifier of that list is an own property of \<open>PACKAGE_MANAGERS\<close>.
\<close>

fun lockfileLoop :: "filesystem \<Rightarrow> path \<Rightarrow> jsstring list \<Rightarrow> package_manager option" where
  "lockfileLoop fs projectRoot [] = None"
| "lockfileLoop fs projectRoot (ident # rest) =
     (case map_of PACKAGE_MANAGERS ident of
        None \<Rightarrow> lockfileLoop fs projectRoot rest
      | Some candidate \<Rightarrow>
          (case lockFile candidate of
             None \<Rightarrow> lockfileLoop fs projectRoot rest
           | Some lockName \<Rightarrow>
               (case findUpwards fs projectRoot [lockName] of
                  Some hit \<Rightarrow> Some candidate
                | None \<Rightarrow> lockfileLoop fs projectRoot rest)))"

text \<open>
  \<open>detectPackageManager\<close>; \<open>projectRoot\<close> is \<open>PROJECT_ROOT\<close>, and \<open>PATHS.packageJson\<close> is
  \<open>package.json\<close> in it.
\<close>

definition packageJsonPath :: "path \<Rightarrow> path" where
  "packageJsonPath projectRoot = path_join projectRoot (js ''package.json'')"

definition detectPackageManager :: "filesystem \<Rightarrow> parser \<Rightarrow> path \<Rightarrow> detected" where
  "detectPackageManager fs parse projectRoot =
     (case extractFromPackageManagerField fs parse (Some (packageJsonPath projectRoot)) of
        Some fromLocalField \<Rightarrow> fromLocalField
      | None \<Rightarrow>
          (case (case findUpwards fs projectRoot [js ''package.json''] of
                   None \<Rightarrow> None
                 | Some upstreamPkg \<Rightarrow>
                     if found_file upstreamPkg \<noteq> packageJsonPath projectRoot
                     then extractFromPackageManagerField fs parse (Some (found_file upstreamPkg))
                     else None) of
             Some fromUpstreamField \<Rightarrow> fromUpstreamField
           | None \<Rightarrow>
               (case lockfileLoop fs projectRoot PACKAGE_MANAGER_PRIORITY of
                  Some candidate \<Rightarrow> Profile candidate
                | None \<Rightarrow> Profile npm)))"

text \<open>
  The directories from \<open>projectRoot\<close> up to the file-system root, nearest first, and whether a
  file name exists in one of them.
\<close>

function ancestors :: "path \<Rightarrow> path list" where
  "ancestors current =
     current # (let parent = path_dirname current in
                if parent = current then [] else ancestors parent)"
  by pat_completeness auto
termination
proof (relation "measure length")
  show "wf (measure length)" by simp
next
  fix current parent :: path
  assume "parent = path_dirname current" and "parent \<noteq> current"
  then have "current \<noteq> []" by (auto simp: path_dirname_def)
  with \<open>parent = path_dirname current\<close>
  show "(parent, current) \<in> measure length"
    by (simp add: path_dirname_def)
qed

declare ancestors.simps [simp del]

definition existsUpwards :: "filesystem \<Rightarrow> path \<Rightarrow> jsstring \<Rightarrow> bool" where
  "existsUpwards fs projectRoot fileName \<longleftrightarrow>
     (\<exists>dir\<in>set (ancestors projectRoot). existsSync fs (path_join dir fileName))"

text \<open>
  The manager of the nearest lockfile, as the testable property of the specification words
  it: the lockfile names are looked up together, level by level, so that a nearer lockfile
  wins and the order pnpm, yarn, bun decides within one directory.
\<close>

definition nearestLockfileManager :: "filesystem \<Rightarrow> path \<Rightarrow> package_manager" where
  "nearestLockfileManager fs projectRoot =
     (case findUpwards fs projectRoot (map js [''pnpm-lock.yaml'', ''yarn.lock'', ''bun.lockb'']) of
        None \<Rightarrow> npm
      | Some hit \<Rightarrow>
          if found_name hit = js ''pnpm-lock.yaml'' then pnpm
          else if found_name hit = js ''yarn.lock'' then yarn
          else bun)"

text \<open>
  A manifest in the directory chain declares the name \<open>ident\<close> when it is a readable file
  that parses to an object whose \<open>packageManager\<close> is a string with \<open>ident\<close> before its
  first \<open>@\<close>.
\<close>

definition declaredName :: "filesystem \<Rightarrow> parser \<Rightarrow> path \<Rightarrow> jsstring option" where
  "declaredName fs parse dir =
     (case fs (path_join dir (js ''package.json'')) of
        Some (RegularFile raw) \<Rightarrow>
          (case parse raw of
             Inr (JObj kvs) \<Rightarrow>
               (case map_of kvs (js ''packageManager'') of
                  Some (JStr s) \<Rightarrow> Some (beforeAt s)
                | _ \<Rightarrow> None)
           | _ \<Rightarrow> None)
      | _ \<Rightarrow> None)"

section \<open>The legacy tool detector\<close>

text \<open>
  \<open>LEGACY_TOOL_PATTERN\<close> is \<open>/(eslint|prettier)/i\<close>. Under the \<open>i\<close> flag a lower-case
  letter of the pattern matches itself and its upper-case form, 32 code units below.
\<close>

definition litCI :: "jsstring \<Rightarrow> rx" where
  "litCI w = foldr (\<lambda>c r. Seq (One (LitCI c (c - 32))) r) w Eps"

definition LEGACY_TOOL_PATTERN :: rx where
  "LEGACY_TOOL_PATTERN = Alt (litCI (js ''eslint'')) (litCI (js ''prettier''))"

text \<open>
  \<open>RegExp.prototype.test\<close> of a pattern without the \<open>g\<close> flag: is there a position at
  which the pattern matches.
\<close>

fun RegExp_test :: "rx \<Rightarrow> jsstring \<Rightarrow> bool" where
  "RegExp_test r [] = (execAt r [] \<noteq> None)"
| "RegExp_test r (c # cs) = (execAt r (c # cs) \<noteq> None \<or> RegExp_test r cs)"

definition dependencyFields :: "jsstring list" where
  "dependencyFields =
     map js [''dependencies'', ''devDependencies'', ''peerDependencies'', ''optionalDependencies'']"

text \<open>\<open>Set.prototype.add\<close> on a set kept in insertion order.\<close>

definition Set_add :: "'a list \<Rightarrow> 'a \<Rightarrow> 'a list" where
  "Set_add s x = (if x \<in> set s then s else s @ [x])"

text \<open>
  \<open>findLegacyTools\<close>. \<open>legacyOfField\<close> is the body of the outer \<open>forEach\<close>. On \<open>null\<close> the
  first \<open>pkg[field]\<close> throws a \<open>TypeError\<close>.
\<close>

definition legacyOfField :: "json \<Rightarrow> jsstring \<Rightarrow> jsstring list \<Rightarrow> jsstring list" where
  "legacyOfField pkg field legacy =
     (case getProp pkg field of
        None \<Rightarrow> legacy
      | Some deps \<Rightarrow>
          if \<not> truthy deps then legacy
          else fold (\<lambda>depName acc.
                  if RegExp_test LEGACY_TOOL_PATTERN depName then Set_add acc depName else acc)
                 (Object_keys deps) legacy)"

definition findLegacyTools :: "json \<Rightarrow> error + jsstring list" where
  "findLegacyTools pkg =
     (case pkg of
        JNull \<Rightarrow> Inl TypeError
      | _ \<Rightarrow> Inr (fold (legacyOfField pkg) dependencyFields []))"

text \<open>
  The words of the contract: a name is a legacy name when, with its ASCII capitals lowered,
  it contains \<open>eslint\<close> or \<open>prettier\<close>; the names of a manifest are the keys of those of
  its four dependency groups that are objects, group by group; and a list in first-seen
  order keeps the first occurrence of each element.
\<close>

definition asciiLower :: "nat \<Rightarrow> nat" where
  "asciiLower c = (if 65 \<le> c \<and> c \<le> 90 then c + 32 else c)"

definition isLegacyName :: "jsstring \<Rightarrow> bool" where
  "isLegacyName depName \<longleftrightarrow>
     (\<exists>pre post. map asciiLower depName = pre @ js ''eslint'' @ post \<or>
                 map asciiLower depName = pre @ js ''prettier'' @ post)"

definition packageNames :: "json \<Rightarrow> jsstring list" where
  "packageNames pkg =
     concat (map (\<lambda>field. case getProp pkg field of Some (JObj deps) \<Rightarrow> map fst deps | _ \<Rightarrow> [])
               dependencyFields)"

fun firstSeen :: "'a list \<Rightarrow> 'a list" where
  "firstSeen [] = []"
| "firstSeen (x # xs) = x # filter (\<lambda>y. y \<noteq> x) (firstSeen xs)"

section \<open>Reading and changing the manifest\<close>

definition readPackageJson :: "filesystem \<Rightarrow> parser \<Rightarrow> path \<Rightarrow> error + json" where
  "readPackageJson fs parse projectRoot =
     (if \<not> existsSync fs (packageJsonPath projectRoot)
      then Inl (CliError
             (js ''No package.json found. Please run this command in your project root.''))
      else
        (case readFileSync fs (packageJsonPath projectRoot) of
           Inl msg \<Rightarrow> Inl (CliError (js ''Could not read or parse package.json: '' @ msg))
         | Inr raw \<Rightarrow>
             (case parse raw of
                Inl msg \<Rightarrow> Inl (CliError (js ''Could not read or parse package.json: '' @ msg))
              | Inr parsed \<Rightarrow> Inr parsed)))"









section \<open>The orchestrator's error handling\<close>

text \<open>
  \<open>main\<close> reads the manifest first; \<open>steps\<close> stands for everything it does with the
  manifest afterwards (detection, prompts, external commands, the scrub, the summary). The
  \<open>catch\<close> of \<open>main\<close> prints the message of a \<open>CliError\<close>, or a fixed line and the error
  itself, and ends the process with code 1. Without an error the process ends with code 0.
\<close>

datatype logged = Message jsstring | ErrorObject error

record main_result =
  errorOutput :: "logged list"
  exitCode :: nat

definition main :: "filesystem \<Rightarrow> parser \<Rightarrow> path \<Rightarrow> (json \<Rightarrow> error + unit) \<Rightarrow> main_result" where
  "main fs parse projectRoot steps =
     (case (case readPackageJson fs parse projectRoot of
              Inl e \<Rightarrow> Inl e
            | Inr pkg \<Rightarrow> steps pkg) of
        Inr u \<Rightarrow> \<lparr> errorOutput = [], exitCode = 0 \<rparr>
      | Inl (CliError msg) \<Rightarrow> \<lparr> errorOutput = [Message msg], exitCode = 1 \<rparr>
      | Inl e \<Rightarrow>
          \<lparr> errorOutput = [Message (js ''Unexpected error while running Biome setup:''),
                            ErrorObject e],
            exitCode = 1 \<rparr>)"

section \<open>Auxiliary notions and example inputs\<close>

text \<open>
  The pattern \<open>LEGACY_TOOL_PATTERN\<close> matches at the start of a name when the name, with its
  ASCII capitals lowered, begins with \<open>eslint\<close> or \<open>prettier\<close>.
\<close>

definition legacyHere :: "jsstring \<Rightarrow> bool" where
  "legacyHere s \<longleftrightarrow>
     (\<exists>rest. map asciiLower s = js ''eslint'' @ rest \<or> map asciiLower s = js ''prettier'' @ rest)"

text \<open>The keys that \<open>findLegacyTools\<close> visits for one dependency field.\<close>

definition keysOfField :: "json \<Rightarrow> jsstring \<Rightarrow> jsstring list" where
  "keysOfField pkg field =
     (case getProp pkg field of
        None \<Rightarrow> []
      | Some deps \<Rightarrow> if truthy deps then Object_keys deps else [])"

text \<open>
  What \<open>JSON.parse\<close> gives on the manifest texts of the examples below, and the message of
  its \<open>SyntaxError\<close> on a text that breaks off.
\<close>

definition exampleParse :: parser where
  \<open>exampleParse raw =
     (if raw = js ''{}'' then Inr (JObj [])
      else if raw = js ''{"packageManager":"pnpm@9.0.0"}''
        then Inr (JObj [(js ''packageManager'', JStr (js ''pnpm@9.0.0''))])
      else if raw = js ''{"packageManager":"constructor@1.0.0"}''
        then Inr (JObj [(js ''packageManager'', JStr (js ''constructor@1.0.0''))])
      else if raw = js ''{"name":"x","eslintConfig":{},"scripts":{"test":"jest","lint":"eslint ."}}''
        then Inr (JObj [(js ''name'', JStr (js ''x'')), (js ''eslintConfig'', JObj []),
                        (js ''scripts'', JObj [(js ''test'', JStr (js ''jest'')),
                                               (js ''lint'', JStr (js ''eslint .''))])])
      else Inl (js ''Unexpected end of JSON input''))\<close>

text \<open>
  The file systems of the examples: scenario A of the specification; a \<open>yarn.lock\<close> in the
  working directory with a \<open>pnpm-lock.yaml\<close> one level up; a \<open>yarn.lock\<close> one level up
  only; a manifest that declares a name of \<open>Object.prototype\<close>; a manifest whose text
  breaks off; and a manifest with legacy configuration and scripts.
\<close>

definition fsScenarioA :: filesystem where
  \<open>fsScenarioA =
     [[js ''app'', js ''package.json''] \<mapsto> RegularFile (js ''{"packageManager":"pnpm@9.0.0"}''),
      [js ''app'', js ''yarn.lock''] \<mapsto> RegularFile []]\<close>

definition fsNestedLockfiles :: filesystem where
  \<open>fsNestedLockfiles =
     [[js ''repo'', js ''app'', js ''package.json''] \<mapsto> RegularFile (js ''{}''),
      [js ''repo'', js ''app'', js ''yarn.lock''] \<mapsto> RegularFile [],
      [js ''repo'', js ''pnpm-lock.yaml''] \<mapsto> RegularFile []]\<close>

definition fsYarnAbove :: filesystem where
  \<open>fsYarnAbove =
     [[js ''repo'', js ''app'', js ''package.json''] \<mapsto> RegularFile (js ''{}''),
      [js ''repo'', js ''yarn.lock''] \<mapsto> RegularFile []]\<close>

definition fsInheritedName :: filesystem where
  \<open>fsInheritedName =
     [[js ''app'', js ''package.json''] \<mapsto>
        RegularFile (js ''{"packageManager":"constructor@1.0.0"}'')]\<close>

definition fsBrokenManifest :: filesystem where
  \<open>fsBrokenManifest = [[js ''app'', js ''package.json''] \<mapsto> RegularFile (js ''{"name":'')]\<close>














text \<open>
  A pattern tail \<open>q\<close> survives the insertion of the directive line when every match of \<open>q\<close>
  on a text that has the directive line after \<open>y\<close>, where \<open>y\<close> does not end in \<open>*\<close>, has a
  match on the text without the directive line.
\<close>

definition survivesInsertion :: "rx \<Rightarrow> bool" where
  "survivesInsertion q \<longleftrightarrow>
     (\<forall>y post. (y = [] \<or> last y \<noteq> 42) \<longrightarrow>
        matchesAt q (y @ nextLineDirective @ post) \<noteq> [] \<longrightarrow> matchesAt q (y @ post) \<noteq> [])"

section \<open>Properties of the matcher and of one scrub\<close>

lemma startsWith_Nil: "startsWith r c \<Longrightarrow> matchesAt r [] = []"
  by (induction r c rule: startsWith.induct) simp_all

lemma startsWith_other: "startsWith r c \<Longrightarrow> d \<noteq> c \<Longrightarrow> matchesAt r (d # s) = []"
  by (induction r c rule: startsWith.induct) simp_all

lemma startsWith_pos: "startsWith r c \<Longrightarrow> k \<in> set (matchesAt r s) \<Longrightarrow> 0 < k"
proof (induction r c arbitrary: k s rule: startsWith.induct)
  case (1 a c)
  then show ?case by (cases s) (auto split: if_splits)
next
  case (2 a b c)
  then show ?case by auto
qed simp_all

lemma execAt_pos: "startsWith r c \<Longrightarrow> execAt r s = Some k \<Longrightarrow> 0 < k"
  using startsWith_pos [of r c k s]
  by (auto simp: execAt_def split: list.splits)

lemma execAt_other: "startsWith r c \<Longrightarrow> d \<noteq> c \<Longrightarrow> execAt r (d # s) = None"
  by (simp add: execAt_def startsWith_other)

lemma execAt_Nil: "startsWith r c \<Longrightarrow> execAt r [] = None"
  by (simp add: execAt_def startsWith_Nil)

lemma replace_length_le: "length (String_replace_empty r s) \<le> length s"
proof (induction r s rule: String_replace_empty.induct)
  case (1 r)
  then show ?case by simp
next
  case (2 r c cs)
  show ?case
  proof (cases "execAt r (c # cs)")
    case None
    with 2 show ?thesis by simp
  next
    case (Some k)
    with 2 have "length (String_replace_empty r (drop (k - 1) cs)) \<le> length cs - (k - 1)"
      by simp
    with Some show ?thesis by auto
  qed
qed

lemma no_match_replace: "matchAll r s = [] \<Longrightarrow> String_replace_empty r s = s"
  by (induction r s rule: matchAll.induct) (auto split: option.splits)

lemma match_replace_shorter:
  "startsWith r c \<Longrightarrow> matchAll r s \<noteq> [] \<Longrightarrow> length (String_replace_empty r s) < length s"
proof (induction r s rule: matchAll.induct)
  case (1 r)
  then show ?case by (simp add: execAt_Nil)
next
  case (2 r d cs)
  show ?case
  proof (cases "execAt r (d # cs)")
    case None
    with 2 show ?thesis by simp
  next
    case (Some k)
    with 2 have "0 < k" using execAt_pos by blast
    moreover have "length (String_replace_empty r (drop (k - 1) cs)) \<le> length cs - (k - 1)"
      using replace_length_le [of r "drop (k - 1) cs"] by simp
    ultimately show ?thesis using Some by simp
  qed
qed

lemma slashfree_matchAll: "startsWith r c \<Longrightarrow> c \<notin> set s \<Longrightarrow> matchAll r s = []"
  by (induction s) (simp_all add: execAt_Nil execAt_other)

lemma prefix_matchAll:
  "startsWith r c \<Longrightarrow> c \<notin> set pre \<Longrightarrow> matchAll r (pre @ s) = matchAll r s"
  by (induction pre) (simp_all add: execAt_other)

lemma prefix_replace:
  "startsWith r c \<Longrightarrow> c \<notin> set pre \<Longrightarrow>
   String_replace_empty r (pre @ s) = pre @ String_replace_empty r s"
  by (induction pre) (simp_all add: execAt_other)

lemma stripStep_none:
  "String_match r (modified acc) = None \<Longrightarrow> stripStep r acc = acc"
  by (simp add: stripStep_def String_match_def no_match_replace split: list.splits)

lemma stripStep_count_mono: "removedCount acc \<le> removedCount (stripStep r acc)"
  by (simp add: stripStep_def split: option.splits)

lemma stripStep_same_count:
  "removedCount (stripStep r acc) = removedCount acc \<Longrightarrow> stripStep r acc = acc"
  by (cases "matchAll r (modified acc)")
     (simp_all add: stripStep_def String_match_def no_match_replace)

lemma stripStep_length_le: "length (modified (stripStep r acc)) \<le> length (modified acc)"
  by (simp add: stripStep_def replace_length_le)

lemma stripStep_shorter:
  "startsWith r c \<Longrightarrow> removedCount acc < removedCount (stripStep r acc) \<Longrightarrow>
   length (modified (stripStep r acc)) < length (modified acc)"
  by (cases "matchAll r (modified acc)")
     (simp_all add: stripStep_def String_match_def match_replace_shorter)

lemma slashfree_step:
  "startsWith r c \<Longrightarrow> c \<notin> set (modified acc) \<Longrightarrow> stripStep r acc = acc"
  by (simp add: stripStep_none String_match_def slashfree_matchAll)

lemma fold_stripStep_mono: "removedCount acc \<le> removedCount (fold stripStep rs acc)"
proof (induction rs arbitrary: acc)
  case Nil
  then show ?case by simp
next
  case (Cons r rs)
  have "removedCount acc \<le> removedCount (stripStep r acc)" by (rule stripStep_count_mono)
  also have "\<dots> \<le> removedCount (fold stripStep rs (stripStep r acc))" by (rule Cons.IH)
  finally show ?case by simp
qed

lemma fold_stripStep_length_le:
  "length (modified (fold stripStep rs acc)) \<le> length (modified acc)"
proof (induction rs arbitrary: acc)
  case Nil
  then show ?case by simp
next
  case (Cons r rs)
  have "length (modified (fold stripStep rs (stripStep r acc))) \<le> length (modified (stripStep r acc))"
    by (rule Cons.IH)
  also have "\<dots> \<le> length (modified acc)" by (rule stripStep_length_le)
  finally show ?case by simp
qed

lemma fold_stripStep_same_count:
  "removedCount (fold stripStep rs acc) = removedCount acc \<Longrightarrow> fold stripStep rs acc = acc"
proof (induction rs arbitrary: acc)
  case Nil
  then show ?case by simp
next
  case (Cons r rs)
  have a: "removedCount acc \<le> removedCount (stripStep r acc)" by (rule stripStep_count_mono)
  have b: "removedCount (stripStep r acc) \<le> removedCount (fold stripStep rs (stripStep r acc))"
    by (rule fold_stripStep_mono)
  from Cons.prems a b have c: "removedCount (stripStep r acc) = removedCount acc" by simp
  then have d: "stripStep r acc = acc" by (rule stripStep_same_count)
  with Cons.prems have "removedCount (fold stripStep rs acc) = removedCount acc" by simp
  then have "fold stripStep rs acc = acc" by (rule Cons.IH)
  with d show ?case by simp
qed

lemma fold_stripStep_shorter:
  "\<forall>r\<in>set rs. startsWith r c \<Longrightarrow> removedCount acc < removedCount (fold stripStep rs acc) \<Longrightarrow>
   length (modified (fold stripStep rs acc)) < length (modified acc)"
proof (induction rs arbitrary: acc)
  case Nil
  then show ?case by simp
next
  case (Cons r rs)
  let ?a = "stripStep r acc"
  show ?case
  proof (cases "removedCount acc < removedCount ?a")
    case True
    moreover from Cons.prems have "startsWith r c" by simp
    ultimately have "length (modified ?a) < length (modified acc)"
      by (rule stripStep_shorter [rotated])
    moreover have "length (modified (fold stripStep rs ?a)) \<le> length (modified ?a)"
      by (rule fold_stripStep_length_le)
    ultimately show ?thesis by simp
  next
    case False
    with stripStep_count_mono [of acc r] have "removedCount ?a = removedCount acc" by simp
    then have "?a = acc" by (rule stripStep_same_count)
    with Cons show ?thesis by simp
  qed
qed

lemma fold_zero_iff:
  "removedCount (fold stripStep rs acc) = removedCount acc \<longleftrightarrow>
   (\<forall>r\<in>set rs. String_match r (modified acc) = None)"
proof (induction rs arbitrary: acc)
  case Nil
  show ?case by simp
next
  case (Cons r rs)
  show ?case
  proof (cases "String_match r (modified acc)")
    case None
    then have "stripStep r acc = acc" by (rule stripStep_none)
    with None Cons.IH [of acc] show ?thesis by simp
  next
    case (Some ms)
    then have "ms \<noteq> []" by (auto simp: String_match_def split: list.splits)
    with Some have "removedCount acc < removedCount (stripStep r acc)"
      by (simp add: stripStep_def)
    moreover have "removedCount (stripStep r acc) \<le> removedCount (fold stripStep rs (stripStep r acc))"
      by (rule fold_stripStep_mono)
    ultimately show ?thesis using Some by simp
  qed
qed

lemma startsWith_patterns:
  "startsWith (blockDirective w) 47" "startsWith (lineDirective w) 47"
  "startsWith genericBlockDirective 47"
  by (simp_all add: blockDirective_def lineDirective_def genericBlockDirective_def lit_def)

lemma patterns_start: "\<forall>r\<in>set ESLINT_DIRECTIVE_PATTERNS. startsWith r 47"
  by (simp add: ESLINT_DIRECTIVE_PATTERNS_def startsWith_patterns)

lemma strip_zero_same:
  "removedCount (stripEslintCommentsFromContent c) = 0 \<Longrightarrow>
   stripEslintCommentsFromContent c = \<lparr> modified = c, removedCount = 0 \<rparr>"
  unfolding stripEslintCommentsFromContent_def
  using fold_stripStep_same_count [of ESLINT_DIRECTIVE_PATTERNS "\<lparr> modified = c, removedCount = 0 \<rparr>"]
  by simp

lemma strip_pos_shorter:
  "0 < removedCount (stripEslintCommentsFromContent c) \<Longrightarrow>
   length (modified (stripEslintCommentsFromContent c)) < length c"
  unfolding stripEslintCommentsFromContent_def
  using fold_stripStep_shorter [OF patterns_start, of "\<lparr> modified = c, removedCount = 0 \<rparr>"]
  by simp

lemma strip_zero_iff:
  "removedCount (stripEslintCommentsFromContent c) = 0 \<longleftrightarrow>
   (\<forall>r\<in>set ESLINT_DIRECTIVE_PATTERNS. String_match r c = None)"
  unfolding stripEslintCommentsFromContent_def
  using fold_zero_iff [of ESLINT_DIRECTIVE_PATTERNS "\<lparr> modified = c, removedCount = 0 \<rparr>"]
  by simp



subsection \<open>Rules that evaluate a scrub on a given text\<close>

lemma matchAll_skip: "startsWith r c \<Longrightarrow> d \<noteq> c \<Longrightarrow> matchAll r (d # s) = matchAll r s"
  by (simp add: execAt_other)

lemma replace_skip:
  "startsWith r c \<Longrightarrow> d \<noteq> c \<Longrightarrow> String_replace_empty r (d # s) = d # String_replace_empty r s"
  by (simp add: execAt_other)

lemmas skip_rules =
  matchAll_skip [OF startsWith_patterns(1)] matchAll_skip [OF startsWith_patterns(2)]
  matchAll_skip [OF startsWith_patterns(3)] replace_skip [OF startsWith_patterns(1)]
  replace_skip [OF startsWith_patterns(2)] replace_skip [OF startsWith_patterns(3)]

lemma matchAll_Nil:
  "matchAll (blockDirective w) [] = []"
  "matchAll (lineDirective w) [] = []"
  "matchAll genericBlockDirective [] = []"
  by (simp_all add: execAt_Nil [OF startsWith_patterns(1)] execAt_Nil [OF startsWith_patterns(2)]
      execAt_Nil [OF startsWith_patterns(3)])

lemma at_slash:
  "matchAll r (47 # s) =
     (case execAt r (47 # s) of
        None \<Rightarrow> matchAll r s
      | Some k \<Rightarrow> take k (47 # s) # matchAll r (drop (k - 1) s))"
  "String_replace_empty r (47 # s) =
     (case execAt r (47 # s) of
        None \<Rightarrow> 47 # String_replace_empty r s
      | Some k \<Rightarrow> (if k = 0 then [47] else []) @ String_replace_empty r (drop (k - 1) s))"
  by simp_all

lemma exec_patterns:
  "execAt (blockDirective w) s =
     (case matchesAt (Seq (lit ''/*'') (Seq (StarG WS) (Seq (lit w)
       (Seq (StarL (Union WS NonWS)) (lit ''*/''))))) s of [] \<Rightarrow> None | k # _ \<Rightarrow> Some k)"
  "execAt (lineDirective w) s =
     (case matchesAt (Seq (lit ''//'') (Seq (StarG WS) (Seq (lit w) (StarG (NoneOf [10, 13]))))) s
      of [] \<Rightarrow> None | k # _ \<Rightarrow> Some k)"
  "execAt genericBlockDirective s =
     (case matchesAt (Seq (lit ''/*'') (Seq (StarG WS) (Seq (lit ''eslint'')
         (Seq (One WS) (Seq (StarG WS) (Seq (StarG (NoneOf [42])) (lit ''*/''))))))) s
      of [] \<Rightarrow> None | k # _ \<Rightarrow> Some k)"
  by (simp_all add: execAt_def blockDirective_def lineDirective_def genericBlockDirective_def)

lemmas scrub_eval =
  stripEslintCommentsFromContent_def ESLINT_DIRECTIVE_PATTERNS_def stripStep_def String_match_def
  skip_rules at_slash matchAll_Nil exec_patterns lit_def isWhiteSpace_def js_def

subsection \<open>The directive line of scenario C\<close>

lemma block_at_line_comment:
  "execAt (blockDirective w) (47 # 47 # s) = None"
  "execAt (blockDirective w) (47 # 32 # s) = None"
  "execAt genericBlockDirective (47 # 47 # s) = None"
  "execAt genericBlockDirective (47 # 32 # s) = None"
  by (simp_all add: exec_patterns lit_def)

lemma nextLine_length: "length nextLineDirective = 42"
  by (simp add: nextLineDirective_def js_def)

text \<open>
  The directive line begins with \<open>//\<close> and a space; it has no other slash and no \<open>*\<close>.
\<close>

lemma nl_shape: "\<exists>t. nextLineDirective = 47 # 47 # 32 # t \<and> 47 \<notin> set t"
  by (simp add: nextLineDirective_def js_def)

lemma nl_hd: "nextLineDirective = 47 # tl nextLineDirective"
  by (simp add: nextLineDirective_def js_def)

lemma nl_nostar: "\<forall>c\<in>set nextLineDirective. c \<noteq> 42"
  by (simp add: nextLineDirective_def js_def)

text \<open>
  The matches of a literal, and of a literal, a star or one code unit followed by a tail.
\<close>

lemma lit_Cons: "lit (c # w) = Seq (One (Lit (of_char c))) (lit w)"
  by (simp add: lit_def)

lemma js_Cons: "js (c # w) = of_char c # js w"
  by (simp add: js_def)

lemma length_js: "length (js w) = length w"
  by (simp add: js_def)

lemma matchesAt_lit:
  "matchesAt (lit w) s = (if take (length w) s = js w then [length w] else [])"
proof (induction w arbitrary: s)
  case Nil
  show ?case by (simp add: lit_def js_def)
next
  case (Cons c w)
  show ?case
  proof (cases s)
    case Nil
    then show ?thesis by (simp add: lit_Cons js_Cons)
  next
    case (Cons x xs)
    then show ?thesis using Cons.IH [of xs] by (simp add: lit_Cons js_Cons)
  qed
qed

lemma matchesAt_lit_seq:
  "matchesAt (Seq (lit w) q) s =
     (if take (length w) s = js w
      then map (\<lambda>j. length w + j) (matchesAt q (drop (length w) s)) else [])"
  by (simp add: matchesAt_lit)

lemma map_add_0: "map ((+) (0::nat)) xs = xs"
  by (induction xs) simp_all

lemma add_Suc_fun: "(+) (Suc x) = (\<lambda>j. Suc (x + j))"
  by auto

lemma starG_seq_Cons:
  "matchesAt (Seq (StarG p) q) (c # cs) =
     (if inCls p c then map Suc (matchesAt (Seq (StarG p) q) cs) @ matchesAt q (c # cs)
      else matchesAt q (c # cs))"
  by (simp add: map_concat o_def map_add_0 add_Suc_fun)

lemma starL_seq_Cons:
  "matchesAt (Seq (StarL p) q) (c # cs) =
     (if inCls p c then matchesAt q (c # cs) @ map Suc (matchesAt (Seq (StarL p) q) cs)
      else matchesAt q (c # cs))"
  by (simp add: map_concat o_def map_add_0 add_Suc_fun)

lemma star_seq_empty:
  "matchesAt (Seq (StarG p) q) (c # cs) = [] \<longleftrightarrow>
     matchesAt q (c # cs) = [] \<and> (inCls p c \<longrightarrow> matchesAt (Seq (StarG p) q) cs = [])"
  "matchesAt (Seq (StarL p) q) (c # cs) = [] \<longleftrightarrow>
     matchesAt q (c # cs) = [] \<and> (inCls p c \<longrightarrow> matchesAt (Seq (StarL p) q) cs = [])"
  unfolding starG_seq_Cons starL_seq_Cons by auto

lemma star_seq_Nil:
  "matchesAt (Seq (StarG p) q) [] = matchesAt q []"
  "matchesAt (Seq (StarL p) q) [] = matchesAt q []"
  by (simp_all add: map_add_0)

lemma one_seq_Cons:
  "matchesAt (Seq (One p) q) (c # cs) = (if inCls p c then map Suc (matchesAt q cs) else [])"
  by simp

text \<open>
  The tails of the eight patterns survive the insertion of the directive line: a match
  that begins before the directive line either ends before it, or runs through it and
  through anything else that could stand in its place.
\<close>

lemma survivesI:
  assumes "\<And>y post. y = [] \<or> last y \<noteq> 42 \<Longrightarrow>
             matchesAt q (y @ nextLineDirective @ post) \<noteq> [] \<Longrightarrow> matchesAt q (y @ post) \<noteq> []"
  shows "survivesInsertion q"
  using assms unfolding survivesInsertion_def by blast

lemma survivesD:
  "survivesInsertion q \<Longrightarrow> y = [] \<or> last y \<noteq> 42 \<Longrightarrow>
   matchesAt q (y @ nextLineDirective @ post) \<noteq> [] \<Longrightarrow> matchesAt q (y @ post) \<noteq> []"
  unfolding survivesInsertion_def by blast

lemma survives_starG:
  assumes q: "survivesInsertion q"
    and base: "\<And>post. matchesAt (Seq (StarG p) q) (nextLineDirective @ post) \<noteq> [] \<Longrightarrow>
                 matchesAt (Seq (StarG p) q) post \<noteq> []"
  shows "survivesInsertion (Seq (StarG p) q)"
proof (rule survivesI)
  fix y post
  assume "y = [] \<or> last y \<noteq> 42"
    and "matchesAt (Seq (StarG p) q) (y @ nextLineDirective @ post) \<noteq> []"
  then show "matchesAt (Seq (StarG p) q) (y @ post) \<noteq> []"
  proof (induction y)
    case Nil
    then show ?case using base by simp
  next
    case (Cons c y)
    from Cons.prems(1) have y: "y = [] \<or> last y \<noteq> 42" by (auto split: if_splits)
    from Cons.prems(2)
    consider "matchesAt q ((c # y) @ nextLineDirective @ post) \<noteq> []"
      | "inCls p c" "matchesAt (Seq (StarG p) q) (y @ nextLineDirective @ post) \<noteq> []"
      using star_seq_empty(1) [of p q c "y @ nextLineDirective @ post"] by auto
    then show ?case
    proof cases
      case 1
      from survivesD [OF q Cons.prems(1) 1] show ?thesis
        using star_seq_empty(1) [of p q c "y @ post"] by simp
    next
      case 2
      from Cons.IH [OF y 2(2)] 2(1) show ?thesis
        using star_seq_empty(1) [of p q c "y @ post"] by simp
    qed
  qed
qed

lemma survives_starL:
  assumes q: "survivesInsertion q"
    and base: "\<And>post. matchesAt (Seq (StarL p) q) (nextLineDirective @ post) \<noteq> [] \<Longrightarrow>
                 matchesAt (Seq (StarL p) q) post \<noteq> []"
  shows "survivesInsertion (Seq (StarL p) q)"
proof (rule survivesI)
  fix y post
  assume "y = [] \<or> last y \<noteq> 42"
    and "matchesAt (Seq (StarL p) q) (y @ nextLineDirective @ post) \<noteq> []"
  then show "matchesAt (Seq (StarL p) q) (y @ post) \<noteq> []"
  proof (induction y)
    case Nil
    then show ?case using base by simp
  next
    case (Cons c y)
    from Cons.prems(1) have y: "y = [] \<or> last y \<noteq> 42" by (auto split: if_splits)
    from Cons.prems(2)
    consider "matchesAt q ((c # y) @ nextLineDirective @ post) \<noteq> []"
      | "inCls p c" "matchesAt (Seq (StarL p) q) (y @ nextLineDirective @ post) \<noteq> []"
      using star_seq_empty(2) [of p q c "y @ nextLineDirective @ post"] by auto
    then show ?case
    proof cases
      case 1
      from survivesD [OF q Cons.prems(1) 1] show ?thesis
        using star_seq_empty(2) [of p q c "y @ post"] by simp
    next
      case 2
      from Cons.IH [OF y 2(2)] 2(1) show ?thesis
        using star_seq_empty(2) [of p q c "y @ post"] by simp
    qed
  qed
qed

lemma starG_base_needs_star:
  "startsWith q 42 \<Longrightarrow> \<forall>c\<in>set d. c \<noteq> 42 \<Longrightarrow>
   matchesAt (Seq (StarG p) q) (d @ post) \<noteq> [] \<Longrightarrow> matchesAt (Seq (StarG p) q) post \<noteq> []"
proof (induction d)
  case Nil
  then show ?case by simp
next
  case (Cons c d)
  then have c: "c \<noteq> 42" and d: "\<forall>c\<in>set d. c \<noteq> 42" by simp_all
  have "matchesAt q (c # d @ post) = []" using Cons.prems(1) c by (rule startsWith_other)
  with Cons.prems(3) have "matchesAt (Seq (StarG p) q) (d @ post) \<noteq> []"
    using star_seq_empty(1) [of p q c "d @ post"] by auto
  then show ?case using Cons.IH Cons.prems(1) d by blast
qed

lemma starL_base_needs_star:
  "startsWith q 42 \<Longrightarrow> \<forall>c\<in>set d. c \<noteq> 42 \<Longrightarrow>
   matchesAt (Seq (StarL p) q) (d @ post) \<noteq> [] \<Longrightarrow> matchesAt (Seq (StarL p) q) post \<noteq> []"
proof (induction d)
  case Nil
  then show ?case by simp
next
  case (Cons c d)
  then have c: "c \<noteq> 42" and d: "\<forall>c\<in>set d. c \<noteq> 42" by simp_all
  have "matchesAt q (c # d @ post) = []" using Cons.prems(1) c by (rule startsWith_other)
  with Cons.prems(3) have "matchesAt (Seq (StarL p) q) (d @ post) \<noteq> []"
    using star_seq_empty(2) [of p q c "d @ post"] by auto
  then show ?case using Cons.IH Cons.prems(1) d by blast
qed

lemma starG_base_stops:
  assumes "\<not> inCls p 47" "startsWith q c" "c \<noteq> 47"
  shows "matchesAt (Seq (StarG p) q) (nextLineDirective @ post) = []"
proof -
  have "matchesAt q (47 # tl nextLineDirective @ post) = []"
    using assms(2) assms(3) [symmetric] by (rule startsWith_other)
  then show ?thesis
    using assms(1) star_seq_empty(1) [of p q 47 "tl nextLineDirective @ post"]
    by (subst nl_hd) simp
qed

lemma survives_one:
  assumes q: "survivesInsertion q" and p: "\<not> inCls p 47"
  shows "survivesInsertion (Seq (One p) q)"
proof (rule survivesI)
  fix y post
  assume l: "y = [] \<or> last y \<noteq> 42"
    and m: "matchesAt (Seq (One p) q) (y @ nextLineDirective @ post) \<noteq> []"
  show "matchesAt (Seq (One p) q) (y @ post) \<noteq> []"
  proof (cases y)
    case Nil
    with m p show ?thesis by (subst (asm) nl_hd) (simp add: one_seq_Cons del: matchesAt.simps)
  next
    case (Cons c y')
    from l Cons have y': "y' = [] \<or> last y' \<noteq> 42" by (auto split: if_splits)
    from m Cons have c: "inCls p c" and m': "matchesAt q (y' @ nextLineDirective @ post) \<noteq> []"
      by (auto simp: one_seq_Cons simp del: matchesAt.simps split: if_splits)
    from survivesD [OF q y' m'] c Cons show ?thesis
      by (simp add: one_seq_Cons del: matchesAt.simps)
  qed
qed

lemma survives_lit_seq:
  assumes q: "survivesInsertion q" and w: "47 \<notin> set (js w)"
  shows "survivesInsertion (Seq (lit w) q)"
proof (rule survivesI)
  fix y post
  let ?n = "length w"
  assume l: "y = [] \<or> last y \<noteq> 42"
    and m: "matchesAt (Seq (lit w) q) (y @ nextLineDirective @ post) \<noteq> []"
  from m have tk: "take ?n (y @ nextLineDirective @ post) = js w"
    and rest: "matchesAt q (drop ?n (y @ nextLineDirective @ post)) \<noteq> []"
    by (auto simp: matchesAt_lit_seq simp del: matchesAt.simps split: if_splits)
  have len: "?n \<le> length y"
  proof (rule ccontr)
    assume "\<not> ?n \<le> length y"
    then have lt: "length y < ?n" by simp
    have "js w ! length y = (y @ nextLineDirective @ post) ! length y"
      using lt tk by (metis nth_take)
    also have "\<dots> = 47" by (subst nl_hd) (simp add: nth_append)
    finally have "js w ! length y = 47" .
    moreover have "length y < length (js w)" using lt by (simp add: length_js)
    ultimately have "47 \<in> set (js w)" by (metis nth_mem)
    with w show False by simp
  qed
  then have tk': "take ?n (y @ post) = js w" using tk by simp
  from len rest have rest': "matchesAt q (drop ?n y @ nextLineDirective @ post) \<noteq> []" by simp
  have "drop ?n y = [] \<or> last (drop ?n y) \<noteq> 42" using l by auto
  from survivesD [OF q this rest'] have "matchesAt q (drop ?n (y @ post)) \<noteq> []"
    using len by simp
  with tk' show "matchesAt (Seq (lit w) q) (y @ post) \<noteq> []"
    by (simp add: matchesAt_lit_seq del: matchesAt.simps)
qed

lemma survives_close: "survivesInsertion (lit ''*/'')"
proof (rule survivesI)
  fix y post
  assume l: "y = [] \<or> last y \<noteq> 42"
    and m: "matchesAt (lit ''*/'') (y @ nextLineDirective @ post) \<noteq> []"
  have j: "js ''*/'' = [42, 47]" by (simp add: js_def)
  from m have tk: "take (length ''*/'') (y @ nextLineDirective @ post) = [42, 47]"
    unfolding matchesAt_lit j by (simp split: if_splits)
  have "length ''*/'' \<le> length y"
  proof (cases y)
    case Nil
    with tk show ?thesis by (subst (asm) nl_hd) simp
  next
    case (Cons a y')
    show ?thesis
    proof (cases y')
      case Nil
      with Cons tk l show ?thesis by simp
    next
      case (Cons b y'')
      with \<open>y = a # y'\<close> show ?thesis by simp
    qed
  qed
  with tk have "take (length ''*/'') (y @ post) = [42, 47]" by simp
  then show "matchesAt (lit ''*/'') (y @ post) \<noteq> []"
    unfolding matchesAt_lit j by simp
qed

lemma survives_always: "(\<And>s. matchesAt q s \<noteq> []) \<Longrightarrow> survivesInsertion q"
  by (rule survivesI) simp

lemma starG_nonempty: "matchesAt (StarG p) s \<noteq> []"
  by (cases s) simp_all

text \<open>
  A pattern that matches at a position before the directive line matches at that position
  of the text without the directive line.
\<close>

lemma execAt_None_iff: "execAt r s = None \<longleftrightarrow> matchesAt r s = []"
  by (simp add: execAt_def split: list.splits)

lemma startsWith_lit_seq: "w \<noteq> [] \<Longrightarrow> startsWith (Seq (lit w) q) (hd (js w))"
  by (cases w) (simp_all add: lit_Cons js_Cons)

lemma head_insertion:
  assumes q: "survivesInsertion q" and no47: "\<And>s. matchesAt q (47 # s) = []"
    and h: "length h = 2" and u: "u \<noteq> []" "last u \<noteq> 42"
    and m: "matchesAt (Seq (lit h) q) (u @ nextLineDirective @ post) \<noteq> []"
  shows "matchesAt (Seq (lit h) q) (u @ post) \<noteq> []"
proof -
  from m h have tk: "take 2 (u @ nextLineDirective @ post) = js h"
    and rest: "matchesAt q (drop 2 (u @ nextLineDirective @ post)) \<noteq> []"
    by (auto simp: matchesAt_lit_seq simp del: matchesAt.simps split: if_splits)
  have len: "2 \<le> length u"
  proof (rule ccontr)
    assume "\<not> 2 \<le> length u"
    with u(1) obtain a where a: "u = [a]" by (cases u; cases "tl u") auto
    obtain t where t: "nextLineDirective = 47 # 47 # 32 # t" using nl_shape by blast
    have "drop 2 (u @ nextLineDirective @ post) = 47 # 32 # t @ post"
      unfolding a t by simp
    with rest no47 show False by simp
  qed
  with tk have tk': "take 2 (u @ post) = js h" by simp
  from len rest have rest': "matchesAt q (drop 2 u @ nextLineDirective @ post) \<noteq> []" by simp
  have "drop 2 u = [] \<or> last (drop 2 u) \<noteq> 42" using u(2) by auto
  from survivesD [OF q this rest'] len have "matchesAt q (drop 2 (u @ post)) \<noteq> []" by simp
  with tk' h show ?thesis by (simp add: matchesAt_lit_seq del: matchesAt.simps)
qed

lemma word_stops_at_slash:
  assumes "w \<noteq> []" "47 \<notin> set (js w)"
  shows "matchesAt (Seq (StarG WS) (Seq (lit w) q)) (47 # s) = []"
proof -
  from assms have "hd (js w) \<noteq> 47" by (cases w) (auto simp: js_Cons)
  with startsWith_lit_seq [OF assms(1), of q]
  have "matchesAt (Seq (lit w) q) (47 # s) = []"
    using startsWith_other by metis
  then show ?thesis
    using star_seq_empty(1) [of WS "Seq (lit w) q" 47 s] by (simp add: isWhiteSpace_def)
qed

lemma survives_word:
  assumes "w \<noteq> []" "47 \<notin> set (js w)" "survivesInsertion q"
  shows "survivesInsertion (Seq (StarG WS) (Seq (lit w) q))"
proof (rule survives_starG)
  show "survivesInsertion (Seq (lit w) q)" using assms(3,2) by (rule survives_lit_seq)
next
  fix post
  assume "matchesAt (Seq (StarG WS) (Seq (lit w) q)) (nextLineDirective @ post) \<noteq> []"
  moreover have "matchesAt (Seq (StarG WS) (Seq (lit w) q)) (nextLineDirective @ post) = []"
    using word_stops_at_slash [OF assms(1,2)] by (subst nl_hd) simp
  ultimately show "matchesAt (Seq (StarG WS) (Seq (lit w) q)) post \<noteq> []" by simp
qed

lemma survives_block_tail: "survivesInsertion (Seq (StarL (Union WS NonWS)) (lit ''*/''))"
proof (rule survives_starL [OF survives_close])
  fix post
  assume "matchesAt (Seq (StarL (Union WS NonWS)) (lit ''*/'')) (nextLineDirective @ post) \<noteq> []"
  then show "matchesAt (Seq (StarL (Union WS NonWS)) (lit ''*/'')) post \<noteq> []"
    by (rule starL_base_needs_star [rotated 2]) (simp_all add: lit_def nl_nostar)
qed

lemma survives_generic_tail:
  "survivesInsertion (Seq (One WS) (Seq (StarG WS) (Seq (StarG (NoneOf [42])) (lit ''*/''))))"
proof -
  have a: "survivesInsertion (Seq (StarG (NoneOf [42])) (lit ''*/''))"
  proof (rule survives_starG [OF survives_close])
    fix post
    assume "matchesAt (Seq (StarG (NoneOf [42])) (lit ''*/'')) (nextLineDirective @ post) \<noteq> []"
    then show "matchesAt (Seq (StarG (NoneOf [42])) (lit ''*/'')) post \<noteq> []"
      by (rule starG_base_needs_star [rotated 2]) (simp_all add: lit_def nl_nostar)
  qed
  have b: "survivesInsertion (Seq (StarG WS) (Seq (StarG (NoneOf [42])) (lit ''*/'')))"
  proof (rule survives_starG [OF a])
    fix post
    let ?q = "Seq (StarG (NoneOf [42])) (lit ''*/'')"
    assume m: "matchesAt (Seq (StarG WS) ?q) (nextLineDirective @ post) \<noteq> []"
    have "matchesAt (Seq (StarG WS) ?q) (47 # tl nextLineDirective @ post) =
          matchesAt ?q (47 # tl nextLineDirective @ post)"
      unfolding starG_seq_Cons by (simp add: isWhiteSpace_def)
    with m have "matchesAt ?q (nextLineDirective @ post) \<noteq> []"
      by (subst nl_hd) (subst (asm) nl_hd, simp del: matchesAt.simps)
    then have "matchesAt ?q post \<noteq> []"
      by (rule starG_base_needs_star [rotated 2]) (simp_all add: lit_def nl_nostar)
    then show "matchesAt (Seq (StarG WS) ?q) post \<noteq> []"
      by (cases post) (simp_all add: starG_seq_Cons star_seq_Nil map_add_0 del: matchesAt.simps)
  qed
  show ?thesis using b by (rule survives_one) (simp add: isWhiteSpace_def)
qed

lemma pattern_insertion:
  assumes r: "r \<in> set ESLINT_DIRECTIVE_PATTERNS" and u: "u \<noteq> []" "last u \<noteq> 42"
    and n: "execAt r (u @ post) = None"
  shows "execAt r (u @ nextLineDirective @ post) = None"
proof -
  have block: "execAt (blockDirective w) (u @ nextLineDirective @ post) = None"
    if "w \<noteq> []" "47 \<notin> set (js w)" "execAt (blockDirective w) (u @ post) = None" for w
  proof (rule ccontr)
    let ?q = "Seq (StarG WS) (Seq (lit w) (Seq (StarL (Union WS NonWS)) (lit ''*/'')))"
    assume "execAt (blockDirective w) (u @ nextLineDirective @ post) \<noteq> None"
    then have "matchesAt (Seq (lit ''/*'') ?q) (u @ nextLineDirective @ post) \<noteq> []"
      by (simp add: execAt_None_iff blockDirective_def del: matchesAt.simps)
    then have "matchesAt (Seq (lit ''/*'') ?q) (u @ post) \<noteq> []"
      by (rule head_insertion [rotated -1])
        (simp_all add: survives_word [OF that(1,2) survives_block_tail]
          word_stops_at_slash [OF that(1,2)] u del: matchesAt.simps)
    with that(3) show False
      by (simp add: execAt_None_iff blockDirective_def del: matchesAt.simps)
  qed
  have line: "execAt (lineDirective w) (u @ nextLineDirective @ post) = None"
    if "w \<noteq> []" "47 \<notin> set (js w)" "execAt (lineDirective w) (u @ post) = None" for w
  proof (rule ccontr)
    let ?q = "Seq (StarG WS) (Seq (lit w) (StarG (NoneOf [10, 13])))"
    assume "execAt (lineDirective w) (u @ nextLineDirective @ post) \<noteq> None"
    then have "matchesAt (Seq (lit ''//'') ?q) (u @ nextLineDirective @ post) \<noteq> []"
      by (simp add: execAt_None_iff lineDirective_def del: matchesAt.simps)
    then have "matchesAt (Seq (lit ''//'') ?q) (u @ post) \<noteq> []"
      by (rule head_insertion [rotated -1])
        (simp_all add: survives_word [OF that(1,2) survives_always [OF starG_nonempty]]
          word_stops_at_slash [OF that(1,2)] u del: matchesAt.simps)
    with that(3) show False
      by (simp add: execAt_None_iff lineDirective_def del: matchesAt.simps)
  qed
  have generic: "execAt genericBlockDirective (u @ nextLineDirective @ post) = None"
    if "execAt genericBlockDirective (u @ post) = None"
  proof (rule ccontr)
    let ?t = "Seq (One WS) (Seq (StarG WS) (Seq (StarG (NoneOf [42])) (lit ''*/'')))"
    let ?q = "Seq (StarG WS) (Seq (lit ''eslint'') ?t)"
    have w: "''eslint'' \<noteq> []" "47 \<notin> set (js ''eslint'')" by (simp_all add: js_def)
    assume "execAt genericBlockDirective (u @ nextLineDirective @ post) \<noteq> None"
    then have "matchesAt (Seq (lit ''/*'') ?q) (u @ nextLineDirective @ post) \<noteq> []"
      by (simp add: execAt_None_iff genericBlockDirective_def del: matchesAt.simps)
    then have "matchesAt (Seq (lit ''/*'') ?q) (u @ post) \<noteq> []"
      by (rule head_insertion [rotated -1])
        (simp_all add: survives_word [OF w survives_generic_tail]
          word_stops_at_slash [OF w] u del: matchesAt.simps)
    with that show False
      by (simp add: execAt_None_iff genericBlockDirective_def del: matchesAt.simps)
  qed
  from r n show ?thesis
    by (auto simp: ESLINT_DIRECTIVE_PATTERNS_def js_def intro!: block line generic)
qed

text \<open>
  A scan passes over a prefix at no position of which the pattern matches.
\<close>

lemma matchAll_append_empty:
  "matchAll r (a @ b) = [] \<Longrightarrow>
   matchAll r b = [] \<and> (\<forall>i<length a. execAt r (drop i a @ b) = None)"
proof (induction a)
  case Nil
  then show ?case by simp
next
  case (Cons c a)
  from Cons.prems have e: "execAt r (c # a @ b) = None" and m: "matchAll r (a @ b) = []"
    by (simp_all split: option.splits)
  from Cons.IH [OF m] have b: "matchAll r b = []"
    and i: "\<And>i. i < length a \<Longrightarrow> execAt r (drop i a @ b) = None" by simp_all
  have "execAt r (drop i (c # a) @ b) = None" if "i < length (c # a)" for i
    using that e i by (cases i) simp_all
  with b show ?case by blast
qed

lemma scan_prefix:
  "\<forall>i<length a. execAt r (drop i a @ b) = None \<Longrightarrow>
   matchAll r (a @ b) = matchAll r b \<and>
   String_replace_empty r (a @ b) = a @ String_replace_empty r b"
proof (induction a)
  case Nil
  then show ?case by simp
next
  case (Cons c a)
  from Cons.prems have e: "execAt r (c # a @ b) = None" by force
  have "\<forall>i<length a. execAt r (drop i a @ b) = None"
  proof (intro allI impI)
    fix i assume "i < length a"
    then have "Suc i < length (c # a)" by simp
    with Cons.prems have "execAt r (drop (Suc i) (c # a) @ b) = None" by blast
    then show "execAt r (drop i a @ b) = None" by simp
  qed
  from Cons.IH [OF this] e show ?case by simp
qed

text \<open>
  At the directive line itself, the fifth pattern matches the 42 code units of the line and
  stops at the line terminator or at the end of the text; the block patterns do not match.
\<close>

lemma nextLine_exec_end:
  assumes "post = [] \<or> hd post = 10 \<or> hd post = 13"
  shows "execAt (lineDirective ''eslint-disable'') (nextLineDirective @ post) = Some 42"
proof (cases post)
  case Nil
  then show ?thesis
    by (simp add: exec_patterns lit_def nextLineDirective_def js_def isWhiteSpace_def)
next
  case (Cons c p)
  with assms have "c = 10 \<or> c = 13" by simp
  with Cons show ?thesis
    by (auto simp: exec_patterns lit_def nextLineDirective_def js_def isWhiteSpace_def)
qed

lemma nextLine_block_at:
  assumes "startsWith r 47" "\<And>s. execAt r (47 # 47 # s) = None"
    "\<And>s. execAt r (47 # 32 # s) = None"
  shows "matchAll r (nextLineDirective @ post) = matchAll r post"
proof -
  obtain t where nl: "nextLineDirective = 47 # 47 # 32 # t" and t: "47 \<notin> set t"
    using nl_shape by blast
  have "matchAll r (nextLineDirective @ post) = matchAll r ((32 # t) @ post)"
    unfolding nl using assms(2,3) by simp
  also have "\<dots> = matchAll r post"
    using assms(1) by (rule prefix_matchAll) (simp add: t)
  finally show ?thesis .
qed

lemma insertion_scan:
  assumes r: "r \<in> set ESLINT_DIRECTIVE_PATTERNS" and pre: "pre = [] \<or> last pre \<noteq> 42"
    and m: "matchAll r (pre @ post) = []"
  shows "matchAll r (pre @ nextLineDirective @ post) = matchAll r (nextLineDirective @ post)"
    and "String_replace_empty r (pre @ nextLineDirective @ post) =
           pre @ String_replace_empty r (nextLineDirective @ post)"
    and "matchAll r post = []"
proof -
  from matchAll_append_empty [OF m] have b: "matchAll r post = []"
    and i: "\<And>i. i < length pre \<Longrightarrow> execAt r (drop i pre @ post) = None" by simp_all
  have "\<forall>i<length pre. execAt r (drop i pre @ nextLineDirective @ post) = None"
  proof (intro allI impI)
    fix i assume l: "i < length pre"
    then have "drop i pre \<noteq> []" by simp
    moreover from l pre have "last (drop i pre) \<noteq> 42" by auto
    ultimately show "execAt r (drop i pre @ nextLineDirective @ post) = None"
      using i [OF l] by (rule pattern_insertion [OF r])
  qed
  from scan_prefix [OF this] b
  show "matchAll r (pre @ nextLineDirective @ post) = matchAll r (nextLineDirective @ post)"
    and "String_replace_empty r (pre @ nextLineDirective @ post) =
           pre @ String_replace_empty r (nextLineDirective @ post)"
    and "matchAll r post = []" by simp_all
qed

text \<open>
  The scrub of a text without directive comments into which the directive line is put.
\<close>

lemma strip_insertion:
  assumes clean: "removedCount (stripEslintCommentsFromContent (pre @ post)) = 0"
    and pre: "pre = [] \<or> last pre \<noteq> 42"
    and post: "post = [] \<or> hd post = 10 \<or> hd post = 13"
  shows "stripEslintCommentsFromContent (pre @ nextLineDirective @ post) =
           \<lparr> modified = pre @ post, removedCount = 1 \<rparr>"
proof -
  let ?c = "pre @ nextLineDirective @ post"
  let ?a = "\<lparr> modified = ?c, removedCount = 0 \<rparr>"
  let ?b = "\<lparr> modified = pre @ post, removedCount = 1 \<rparr>"
  have none: "matchAll r (pre @ post) = []" if "r \<in> set ESLINT_DIRECTIVE_PATTERNS" for r
  proof -
    from clean that have "String_match r (pre @ post) = None" by (simp add: strip_zero_iff)
    then show ?thesis by (cases "matchAll r (pre @ post)") (simp_all add: String_match_def)
  qed
  have blk: "stripStep (blockDirective w) ?a = ?a"
    if "blockDirective w \<in> set ESLINT_DIRECTIVE_PATTERNS" for w
  proof -
    have "matchAll (blockDirective w) ?c = matchAll (blockDirective w) (nextLineDirective @ post)"
      using that pre none [OF that] by (rule insertion_scan(1))
    also have "\<dots> = matchAll (blockDirective w) post"
      using startsWith_patterns(1) block_at_line_comment(1,2) by (rule nextLine_block_at)
    also have "\<dots> = []" using that pre none [OF that] by (rule insertion_scan(3))
    finally show ?thesis by (simp add: stripStep_none String_match_def)
  qed
  have gen: "stripStep genericBlockDirective ?a = ?a"
  proof -
    have g: "genericBlockDirective \<in> set ESLINT_DIRECTIVE_PATTERNS"
      by (simp add: ESLINT_DIRECTIVE_PATTERNS_def)
    have "matchAll genericBlockDirective ?c = matchAll genericBlockDirective (nextLineDirective @ post)"
      using g pre none [OF g] by (rule insertion_scan(1))
    also have "\<dots> = matchAll genericBlockDirective post"
      using startsWith_patterns(3) block_at_line_comment(3,4) by (rule nextLine_block_at)
    also have "\<dots> = []" using g pre none [OF g] by (rule insertion_scan(3))
    finally show ?thesis by (simp add: stripStep_none String_match_def)
  qed
  have line: "stripStep (lineDirective ''eslint-disable'') ?a = ?b"
  proof -
    let ?r = "lineDirective ''eslint-disable''"
    have l: "?r \<in> set ESLINT_DIRECTIVE_PATTERNS" by (simp add: ESLINT_DIRECTIVE_PATTERNS_def)
    have rest: "matchAll ?r post = []" using l pre none [OF l] by (rule insertion_scan(3))
    have nl: "nextLineDirective @ post = 47 # (tl nextLineDirective @ post)"
      by (subst nl_hd) simp
    have ex: "execAt ?r (47 # (tl nextLineDirective @ post)) = Some 42"
      using nextLine_exec_end [OF post] nl by simp
    have tk: "take 42 (47 # (tl nextLineDirective @ post)) = nextLineDirective"
      using nl nextLine_length by (metis append_eq_conv_conj)
    have "drop 42 (nextLineDirective @ post) = post" using nextLine_length by simp
    then have dr: "drop 41 (tl nextLineDirective @ post) = post" by (simp add: nl)
    have "matchAll ?r ?c = matchAll ?r (nextLineDirective @ post)"
      using l pre none [OF l] by (rule insertion_scan(1))
    also have "\<dots> = [nextLineDirective]" unfolding nl using ex tk dr rest by simp
    finally have m: "matchAll ?r ?c = [nextLineDirective]" .
    have "String_replace_empty ?r ?c = pre @ String_replace_empty ?r (nextLineDirective @ post)"
      using l pre none [OF l] by (rule insertion_scan(2))
    also have "String_replace_empty ?r (nextLineDirective @ post) = post"
      unfolding nl using ex dr no_match_replace [OF rest] by simp
    finally have "String_replace_empty ?r ?c = pre @ post" .
    with m show ?thesis by (simp add: stripStep_def String_match_def)
  qed
  have after: "stripStep (lineDirective w) ?b = ?b"
    if "lineDirective w \<in> set ESLINT_DIRECTIVE_PATTERNS" for w
    using none [OF that] by (simp add: stripStep_none String_match_def)
  have mem: "blockDirective ''eslint-disable'' \<in> set ESLINT_DIRECTIVE_PATTERNS"
    "blockDirective ''eslint-enable'' \<in> set ESLINT_DIRECTIVE_PATTERNS"
    "blockDirective ''eslint-env'' \<in> set ESLINT_DIRECTIVE_PATTERNS"
    "lineDirective ''eslint-enable'' \<in> set ESLINT_DIRECTIVE_PATTERNS"
    "lineDirective ''eslint-env'' \<in> set ESLINT_DIRECTIVE_PATTERNS"
    "lineDirective ''eslint-'' \<in> set ESLINT_DIRECTIVE_PATTERNS"
    by (simp_all add: ESLINT_DIRECTIVE_PATTERNS_def)
  show ?thesis
    by (simp only: stripEslintCommentsFromContent_def ESLINT_DIRECTIVE_PATTERNS_def fold_simps
        blk [OF mem(1)] blk [OF mem(2)] blk [OF mem(3)] gen line
        after [OF mem(4)] after [OF mem(5)] after [OF mem(6)])
qed

section \<open>Properties of the file walk\<close>

lemma walkEntry_prune:
  "walkEntry extname directory (prune e) st = walkEntry extname directory e st"
proof (induction extname directory e st rule: walkEntry.induct)
  case (1 extname directory entryName entries st)
  show ?case
  proof (cases "shouldIgnoreDir entryName")
    case True
    then show ?thesis by simp
  next
    case False
    have "fold (walkEntry extname (path_join directory entryName)) (map prune entries) st =
          fold (walkEntry extname (path_join directory entryName) \<circ> prune) entries st"
      by (simp add: fold_map)
    also have "\<dots> = fold (walkEntry extname (path_join directory entryName)) entries st"
      by (rule fold_cong) (use 1 False in \<open>auto\<close>)
    finally show ?thesis using False by simp
  qed
qed simp_all

lemma walk_prune: "walk extname directory (map prune entries) st = walk extname directory entries st"
proof -
  have "fold (walkEntry extname directory) (map prune entries) st =
        fold (walkEntry extname directory \<circ> prune) entries st"
    by (simp add: fold_map)
  also have "\<dots> = fold (walkEntry extname directory) entries st"
    by (rule fold_cong) (auto simp: walkEntry_prune)
  finally show ?thesis by (simp add: walk_def)
qed

lemma fold_written:
  assumes "\<And>x st. x \<in> set xs \<Longrightarrow> set (written (f x st)) \<subseteq> set (written st) \<union> W"
  shows "set (written (fold f xs st)) \<subseteq> set (written st) \<union> W"
  using assms
proof (induction xs arbitrary: st)
  case Nil
  then show ?case by simp
next
  case (Cons x xs)
  have "set (written (fold f xs (f x st))) \<subseteq> set (written (f x st)) \<union> W"
    by (rule Cons.IH) (simp add: Cons.prems)
  moreover have "set (written (f x st)) \<subseteq> set (written st) \<union> W"
    by (rule Cons.prems) simp
  ultimately show ?case by auto
qed

lemma notBeneath_step:
  assumes ni: "\<not> shouldIgnoreDir entryName"
    and nb: "notBeneathIgnored (path_join directory entryName) p"
  shows "notBeneathIgnored directory p"
proof -
  let ?n = "length directory"
  from nb have tk: "take (Suc ?n) p = directory @ [entryName]" and len: "Suc ?n < length p"
    and cl: "\<forall>d\<in>set (butlast (drop (Suc ?n) p)). \<not> shouldIgnoreDir d"
    by (simp_all add: notBeneathIgnored_def path_join_def)
  from tk have t1: "take ?n p = directory"
    by (metis append_eq_conv_conj take_take min.absorb1 le_add2 plus_1_eq_Suc)
  from tk len have nth: "p ! ?n = entryName"
    by (metis lessI nth_append_length nth_take)
  from len have "drop ?n p = p ! ?n # drop (Suc ?n) p"
    by (simp add: Cons_nth_drop_Suc)
  with nth len have "butlast (drop ?n p) = entryName # butlast (drop (Suc ?n) p)"
    by simp
  with ni cl t1 len show ?thesis by (simp add: notBeneathIgnored_def)
qed

lemma walkEntry_written:
  "set (written (walkEntry extname directory e st)) \<subseteq>
   set (written st) \<union> {(p, c). notBeneathIgnored directory p}"
proof (induction extname directory e st rule: walkEntry.induct)
  case (1 extname directory entryName entries st)
  show ?case
  proof (cases "shouldIgnoreDir entryName")
    case True
    then show ?thesis by simp
  next
    case False
    have "set (written (fold (walkEntry extname (path_join directory entryName)) entries st)) \<subseteq>
          set (written st) \<union> {(p, c). notBeneathIgnored (path_join directory entryName) p}"
      by (rule fold_written) (use 1 False in \<open>blast\<close>)
    moreover have "{(p, c :: jsstring). notBeneathIgnored (path_join directory entryName) p} \<subseteq>
          {(p, c). notBeneathIgnored directory p}"
      using notBeneath_step [OF False] by auto
    ultimately show ?thesis using False by auto
  qed
next
  case (2 extname directory entryName st)
  show ?case by simp
next
  case (3 extname directory entryName original st)
  have "notBeneathIgnored directory (path_join directory entryName)"
    by (simp add: notBeneathIgnored_def path_join_def)
  then show ?case by (auto simp: Let_def)
qed

section \<open>Claims about the comment scrubber\<close>

text \<open>
  C1, as stated: a second scrub of the output of a first scrub removes nothing. It fails: in
  the text below the inner comment is a match of the second pattern; deleting it joins the
  text around it into a new \<open>eslint-enable\<close> block comment, which a second scrub removes.
\<close>

theorem scrub_twice_removes_again:
  "stripEslintCommentsFromContent (js ''/* eslint-enab/* eslint-enable */le */'') =
     \<lparr> modified = js ''/* eslint-enable */'', removedCount = 1 \<rparr> \<and>
   stripEslintCommentsFromContent (js ''/* eslint-enable */'') =
     \<lparr> modified = [], removedCount = 1 \<rparr>"
  supply matchAll.simps [simp del] String_replace_empty.simps(2) [simp del]
  by (simp add: scrub_eval)

text \<open>
  C1, amended: a scrub that removes nothing leaves the text unchanged, and a scrub that
  removes something shortens the text, so that scrubbing again and again reaches, after at
  most as many scrubs as the content has code units, a text on which a scrub returns count
  0 and the same text.
\<close>

theorem scrub_reaches_fixed_point:
  "\<exists>n\<le>length c. stripEslintCommentsFromContent ((scrubText ^^ n) c) =
      \<lparr> modified = (scrubText ^^ n) c, removedCount = 0 \<rparr>"
proof (induction "length c" arbitrary: c rule: less_induct)
  case less
  show ?case
  proof (cases "removedCount (stripEslintCommentsFromContent c) = 0")
    case True
    then have "stripEslintCommentsFromContent ((scrubText ^^ 0) c) =
      \<lparr> modified = (scrubText ^^ 0) c, removedCount = 0 \<rparr>"
      by (simp add: strip_zero_same)
    then show ?thesis by blast
  next
    case False
    then have sh: "length (scrubText c) < length c"
      by (simp add: scrubText_def strip_pos_shorter)
    from less [OF sh] obtain n where n: "n \<le> length (scrubText c)"
      and fx: "stripEslintCommentsFromContent ((scrubText ^^ n) (scrubText c)) =
        \<lparr> modified = (scrubText ^^ n) (scrubText c), removedCount = 0 \<rparr>"
      by blast
    have "(scrubText ^^ Suc n) c = (scrubText ^^ n) (scrubText c)"
      by (simp add: funpow_swap1)
    with fx have "stripEslintCommentsFromContent ((scrubText ^^ Suc n) c) =
        \<lparr> modified = (scrubText ^^ Suc n) c, removedCount = 0 \<rparr>"
      by simp
    moreover from n sh have "Suc n \<le> length c" by simp
    ultimately show ?thesis by blast
  qed
qed

theorem scrub_reaches_fixed_point_witness:
  "\<exists>n\<le>length (js ''// eslint-x'').
      stripEslintCommentsFromContent ((scrubText ^^ n) (js ''// eslint-x'')) =
        \<lparr> modified = (scrubText ^^ n) (js ''// eslint-x''), removedCount = 0 \<rparr>"
  by (rule scrub_reaches_fixed_point)



text \<open>
  C5: the walk does not enter a directory whose name is in the ignore set. The report and
  the writes are those of the tree in which every such directory is empty, so nothing
  beneath one, at any depth, counts; and no written path lies beneath one.
\<close>

theorem ignored_directories_skipped:
  "walkAndCleanComments extname rootDir (map prune entries) =
     walkAndCleanComments extname rootDir entries \<and>
   (\<forall>(p, c)\<in>set (written (walkAndCleanComments extname rootDir entries)).
      notBeneathIgnored rootDir p)"
proof -
  let ?st = "\<lparr> filesScanned = 0, filesTouched = 0, totalCommentsRemoved = 0, written = [] \<rparr>"
  have "set (written (fold (walkEntry extname rootDir) entries ?st)) \<subseteq>
        set (written ?st) \<union> {(p, c). notBeneathIgnored rootDir p}"
    by (rule fold_written) (rule walkEntry_written)
  then have "\<forall>(p, c)\<in>set (written (walkAndCleanComments extname rootDir entries)).
      notBeneathIgnored rootDir p"
    by (auto simp: walkAndCleanComments_def walk_def)
  moreover have "walkAndCleanComments extname rootDir (map prune entries) =
     walkAndCleanComments extname rootDir entries"
    by (simp add: walkAndCleanComments_def walk_prune)
  ultimately show ?thesis by simp
qed

theorem ignored_directories_skipped_witness:
  "walkAndCleanComments posix_extname [js ''app'']
     [DirEnt (js ''src'') [DirEnt (js ''dist'') [FileEnt (js ''a.js'') (js ''//eslint-x'')],
                           FileEnt (js ''b.js'') (js ''//eslint-x'')]] =
   \<lparr> filesScanned = 1, filesTouched = 1, totalCommentsRemoved = 1,
     written = [([js ''app'', js ''src'', js ''b.js''], [])] \<rparr> \<and>
   notBeneathIgnored [js ''app''] [js ''app'', js ''src'', js ''b.js'']"
proof -
  let ?t = "[DirEnt (js ''src'') [DirEnt (js ''dist'') [FileEnt (js ''a.js'') (js ''//eslint-x'')],
                           FileEnt (js ''b.js'') (js ''//eslint-x'')]]"
  have s: "stripEslintCommentsFromContent (js ''//eslint-x'') = \<lparr> modified = [], removedCount = 1 \<rparr>"
    supply matchAll.simps [simp del] String_replace_empty.simps(2) [simp del]
    by (simp add: scrub_eval)
  have c: "isCodeFile posix_extname [js ''app'', js ''src'', js ''b.js'']"
    by (simp add: isCodeFile_def posix_extname_def CODE_EXTENSIONS_def js_def)
  have i: "\<not> shouldIgnoreDir (js ''src'')" "shouldIgnoreDir (js ''dist'')"
    by (simp_all add: shouldIgnoreDir_def IGNORED_DIRECTORIES_def js_def)
  have w: "walkAndCleanComments posix_extname [js ''app''] ?t =
     \<lparr> filesScanned = 1, filesTouched = 1, totalCommentsRemoved = 1,
       written = [([js ''app'', js ''src'', js ''b.js''], [])] \<rparr>"
    using s c i by (simp add: walkAndCleanComments_def walk_def path_join_def)
  from ignored_directories_skipped [of posix_extname "[js ''app'']" ?t] w
  show ?thesis by simp
qed

text \<open>
  C6, as stated: the directive line is removed entirely, with no residue. It fails: the
  pattern stops before the line terminator, so the line stays as an empty line between
  \<open>a\<close> and \<open>b\<close>.
\<close>

theorem next_line_directive_leaves_empty_line:
  "stripEslintCommentsFromContent
     (js ''a'' @ [10] @ js ''// eslint-disable-next-line no-unused-vars'' @ [10] @ js ''b'') =
     \<lparr> modified = js ''a'' @ [10, 10] @ js ''b'', removedCount = 1 \<rparr> \<and>
   js ''a'' @ [10, 10] @ js ''b'' \<noteq> js ''a'' @ [10] @ js ''b''"
proof -
  have "removedCount (stripEslintCommentsFromContent ((js ''a'' @ [10]) @ 10 # js ''b'')) = 0"
    supply matchAll.simps [simp del] String_replace_empty.simps(2) [simp del]
    by (simp add: scrub_eval)
  from strip_insertion [OF this] show ?thesis
    by (simp add: nextLineDirective_def js_def)
qed

text \<open>
  C6, amended: take any text in which no directive pattern matches, written as \<open>pre @ post\<close>
  where \<open>post\<close> is empty or begins with a line feed or a carriage return, and \<open>pre\<close> does
  not end in \<open>*\<close> (so \<open>pre\<close> may be empty, end a line, or be the indentation or the code
  before the comment). In the file that has the directive comment between \<open>pre\<close> and
  \<open>post\<close>, the scrub deletes the comment from \<open>//\<close> up to, not including, the line
  terminator or the end of the file, leaves everything else, and reports count 1.
\<close>

theorem next_line_directive_removed:
  assumes "removedCount (stripEslintCommentsFromContent (pre @ post)) = 0"
    and "pre = [] \<or> last pre \<noteq> 42"
    and "post = [] \<or> hd post = 10 \<or> hd post = 13"
  shows "stripEslintCommentsFromContent
           (pre @ js ''// eslint-disable-next-line no-unused-vars'' @ post) =
           \<lparr> modified = pre @ post, removedCount = 1 \<rparr>"
  using strip_insertion [OF assms] by (simp add: nextLineDirective_def)

theorem next_line_directive_removed_witness:
  "removedCount (stripEslintCommentsFromContent
     ((js ''f(); // ok'' @ [13, 10] @ js ''  '') @ ([13, 10] @ js ''g(a / b); /* c */''))) = 0 \<and>
   last (js ''f(); // ok'' @ [13, 10] @ js ''  '') \<noteq> 42 \<and>
   hd ([13, 10] @ js ''g(a / b); /* c */'') = 13 \<and>
   stripEslintCommentsFromContent
     ((js ''f(); // ok'' @ [13, 10] @ js ''  '') @
      js ''// eslint-disable-next-line no-unused-vars'' @
      ([13, 10] @ js ''g(a / b); /* c */'')) =
     \<lparr> modified = (js ''f(); // ok'' @ [13, 10] @ js ''  '') @ ([13, 10] @ js ''g(a / b); /* c */''),
       removedCount = 1 \<rparr>"
proof -
  have h: "removedCount (stripEslintCommentsFromContent
     ((js ''f(); // ok'' @ [13, 10] @ js ''  '') @ ([13, 10] @ js ''g(a / b); /* c */''))) = 0"
    supply matchAll.simps [simp del] String_replace_empty.simps(2) [simp del]
    by (simp add: scrub_eval)
  have p: "last (js ''f(); // ok'' @ [13, 10] @ js ''  '') \<noteq> 42"
    by (simp add: js_def)
  have q: "hd ([13, 10] @ js ''g(a / b); /* c */'') = 13" by simp
  from next_line_directive_removed [OF h disjI2 [OF p] disjI2 [OF disjI2 [OF q]]] h p q
  show ?thesis by simp
qed

section \<open>Properties of the environment prober\<close>

lemma extract_declared:
  "extractFromPackageManagerField fs parse (Some (path_join dir (js ''package.json''))) =
     (case declaredName fs parse dir of None \<Rightarrow> None | Some ident \<Rightarrow> PACKAGE_MANAGERS_get ident)"
  by (simp add: extractFromPackageManagerField_def declaredName_def readFileSync_def
      split: option.splits fsnode.splits sum.splits json.splits)

lemma ancestors_self: "current \<in> set (ancestors current)"
  by (subst ancestors.simps) simp

lemma ancestors_parent: "set (ancestors (path_dirname current)) \<subseteq> set (ancestors current)"
proof (cases "path_dirname current = current")
  case True
  then show ?thesis by simp
next
  case False
  then show ?thesis by (subst (2) ancestors.simps) auto
qed

lemma findUpwards_Some:
  "findUpwards fs current filenames = Some hit \<Longrightarrow>
   found_directory hit \<in> set (ancestors current) \<and>
   found_file hit = path_join (found_directory hit) (found_name hit) \<and>
   found_name hit \<in> set filenames"
proof (induction fs current filenames rule: findUpwards.induct)
  case (1 fs current filenames)
  show ?case
  proof (cases "find (\<lambda>candidateName. existsSync fs (path_join current candidateName)) filenames")
    case (Some candidateName)
    then have "candidateName \<in> set filenames"
      by (auto simp: find_Some_iff)
    with Some "1.prems" show ?thesis
      by (subst (asm) findUpwards.simps) (auto simp: ancestors_self)
  next
    case None
    show ?thesis
    proof (cases "path_dirname current = current")
      case True
      with None "1.prems" show ?thesis
        by (subst (asm) findUpwards.simps) simp
    next
      case False
      with None "1.prems" have "findUpwards fs (path_dirname current) filenames = Some hit"
        by (subst (asm) findUpwards.simps) simp
      with "1.IH" [OF None refl False] ancestors_parent [of current] show ?thesis
        by auto
    qed
  qed
qed

lemma findUpwards_single:
  "findUpwards fs current [fileName] \<noteq> None \<longleftrightarrow> existsUpwards fs current fileName"
proof (induction fs current "[fileName]" rule: findUpwards.induct)
  case (1 fs current)
  show ?case
  proof (cases "existsSync fs (path_join current fileName)")
    case True
    then show ?thesis
      by (subst findUpwards.simps) (auto simp: existsUpwards_def ancestors_self)
  next
    case False
    then have f: "find (\<lambda>candidateName. existsSync fs (path_join current candidateName)) [fileName] = None"
      by simp
    show ?thesis
    proof (cases "path_dirname current = current")
      case True
      have "findUpwards fs current [fileName] = None"
        using False True by (subst findUpwards.simps) simp
      moreover have "ancestors current = [current]"
        using True by (subst ancestors.simps) simp
      ultimately show ?thesis using False by (simp add: existsUpwards_def)
    next
      case nr: False
      have "findUpwards fs current [fileName] = findUpwards fs (path_dirname current) [fileName]"
        using False nr by (subst findUpwards.simps) simp
      moreover have "ancestors current = current # ancestors (path_dirname current)"
        using nr by (subst ancestors.simps) simp
      then have "existsUpwards fs current fileName = existsUpwards fs (path_dirname current) fileName"
        using False by (simp add: existsUpwards_def)
      ultimately show ?thesis using "1.hyps" [OF f refl nr] by simp
    qed
  qed
qed

lemma lockfileLoop_priority:
  "lockfileLoop fs projectRoot PACKAGE_MANAGER_PRIORITY =
     (if existsUpwards fs projectRoot (js ''pnpm-lock.yaml'') then Some pnpm
      else if existsUpwards fs projectRoot (js ''yarn.lock'') then Some yarn
      else if existsUpwards fs projectRoot (js ''bun.lockb'') then Some bun
      else None)"
proof -
  have p: "map_of PACKAGE_MANAGERS (js ''pnpm'') = Some pnpm"
    "map_of PACKAGE_MANAGERS (js ''yarn'') = Some yarn"
    "map_of PACKAGE_MANAGERS (js ''bun'') = Some bun"
    by (simp_all add: PACKAGE_MANAGERS_def js_def)
  have l: "lockFile pnpm = Some (js ''pnpm-lock.yaml'')" "lockFile yarn = Some (js ''yarn.lock'')"
    "lockFile bun = Some (js ''bun.lockb'')"
    by (simp_all add: pnpm_def yarn_def bun_def)
  have f: "(case findUpwards fs projectRoot [n] of None \<Rightarrow> a | Some hit \<Rightarrow> b) =
           (if existsUpwards fs projectRoot n then b else a)" for n and a b :: "package_manager option"
    using findUpwards_single [of fs projectRoot n] by (auto split: option.splits)
  show ?thesis
    by (simp add: PACKAGE_MANAGER_PRIORITY_def p l f)
qed

lemma known_name_no_at: "map_of PACKAGE_MANAGERS ident = Some m \<Longrightarrow> 64 \<notin> set ident"
  by (auto simp: PACKAGE_MANAGERS_def js_def split: if_splits)

lemma beforeAt_append: "64 \<notin> set ident \<Longrightarrow> beforeAt (ident @ 64 # version) = ident"
  by (induction ident) (simp_all add: beforeAt_def)

lemmas fs_eval = js_def path_join_def packageJsonPath_def path_dirname_def existsSync_def
  readFileSync_def

section \<open>Properties of the legacy tool detector\<close>

lemma inCls_LitCI:
  "97 \<le> c \<Longrightarrow> c \<le> 122 \<Longrightarrow> inCls (LitCI c (c - 32)) x \<longleftrightarrow> asciiLower x = c"
  by (auto simp: asciiLower_def)

lemma litCI_Cons: "litCI (c # w) = Seq (One (LitCI c (c - 32))) (litCI w)"
  by (simp add: litCI_def)

lemma matchesAt_litCI:
  "\<forall>c\<in>set w. 97 \<le> c \<and> c \<le> 122 \<Longrightarrow>
   matchesAt (litCI w) s = (if take (length w) (map asciiLower s) = w then [length w] else [])"
proof (induction w arbitrary: s)
  case Nil
  show ?case by (simp add: litCI_def)
next
  case (Cons c w)
  then have c: "97 \<le> c" "c \<le> 122" and w: "\<forall>c\<in>set w. 97 \<le> c \<and> c \<le> 122" by simp_all
  show ?case
  proof (cases s)
    case Nil
    then show ?thesis by (simp add: litCI_Cons)
  next
    case (Cons x xs)
    show ?thesis
      unfolding Cons litCI_Cons
      using inCls_LitCI [OF c, of x] Cons.IH [OF w, of xs]
      by (simp del: inCls.simps)
  qed
qed

lemma take_eq_prefix: "take (length w) xs = w \<longleftrightarrow> (\<exists>rest. xs = w @ rest)"
  by (metis append_eq_conv_conj append_take_drop_id)

lemma execAt_legacy: "execAt LEGACY_TOOL_PATTERN s \<noteq> None \<longleftrightarrow> legacyHere s"
proof -
  have e: "\<forall>c\<in>set (js ''eslint''). 97 \<le> c \<and> c \<le> 122"
    and p: "\<forall>c\<in>set (js ''prettier''). 97 \<le> c \<and> c \<le> 122"
    by (simp_all add: js_def)
  have "execAt LEGACY_TOOL_PATTERN s \<noteq> None \<longleftrightarrow>
        take (length (js ''eslint'')) (map asciiLower s) = js ''eslint'' \<or>
        take (length (js ''prettier'')) (map asciiLower s) = js ''prettier''"
    by (simp add: execAt_def LEGACY_TOOL_PATTERN_def matchesAt_litCI [OF e] matchesAt_litCI [OF p])
  then show ?thesis
    unfolding take_eq_prefix legacyHere_def by blast
qed

lemma RegExp_test_iff:
  "RegExp_test r s \<longleftrightarrow> (\<exists>pre post. s = pre @ post \<and> execAt r post \<noteq> None)"
proof (induction s)
  case Nil
  show ?case by simp
next
  case (Cons c cs)
  show ?case
  proof
    assume "RegExp_test r (c # cs)"
    then consider "execAt r (c # cs) \<noteq> None" | "RegExp_test r cs" by auto
    then show "\<exists>pre post. c # cs = pre @ post \<and> execAt r post \<noteq> None"
    proof cases
      case 1
      then have "c # cs = [] @ (c # cs) \<and> execAt r (c # cs) \<noteq> None" by simp
      then show ?thesis by blast
    next
      case 2
      with Cons.IH obtain pre post where "cs = pre @ post" "execAt r post \<noteq> None" by blast
      then have "c # cs = (c # pre) @ post \<and> execAt r post \<noteq> None" by simp
      then show ?thesis by blast
    qed
  next
    assume "\<exists>pre post. c # cs = pre @ post \<and> execAt r post \<noteq> None"
    then obtain pre post where pp: "c # cs = pre @ post" "execAt r post \<noteq> None" by blast
    show "RegExp_test r (c # cs)"
    proof (cases pre)
      case Nil
      with pp have "execAt r (c # cs) \<noteq> None" by simp
      then show ?thesis by simp
    next
      case (Cons d pre')
      with pp have "cs = pre' @ post" by simp
      with pp(2) Cons.IH have "RegExp_test r cs" by blast
      then show ?thesis by simp
    qed
  qed
qed

lemma isLegacyName_iff: "isLegacyName s \<longleftrightarrow> (\<exists>pre post. s = pre @ post \<and> legacyHere post)"
proof
  assume "isLegacyName s"
  then obtain pre post w where w: "w = js ''eslint'' \<or> w = js ''prettier''"
    and m: "map asciiLower s = pre @ w @ post"
    unfolding isLegacyName_def by blast
  let ?n = "length pre"
  have "map asciiLower (drop ?n s) = drop ?n (map asciiLower s)" by (simp add: drop_map)
  also have "\<dots> = w @ post" using m by simp
  finally have "legacyHere (drop ?n s)" using w unfolding legacyHere_def by blast
  moreover have "s = take ?n s @ drop ?n s" by simp
  ultimately show "\<exists>pre post. s = pre @ post \<and> legacyHere post" by blast
next
  assume "\<exists>pre post. s = pre @ post \<and> legacyHere post"
  then obtain pre post where s: "s = pre @ post" and h: "legacyHere post" by blast
  from h obtain rest where
    "map asciiLower post = js ''eslint'' @ rest \<or> map asciiLower post = js ''prettier'' @ rest"
    unfolding legacyHere_def by blast
  then have "map asciiLower s = map asciiLower pre @ js ''eslint'' @ rest \<or>
             map asciiLower s = map asciiLower pre @ js ''prettier'' @ rest"
    using s by auto
  then show "isLegacyName s" unfolding isLegacyName_def by blast
qed

lemma test_legacy: "RegExp_test LEGACY_TOOL_PATTERN s \<longleftrightarrow> isLegacyName s"
  by (simp only: RegExp_test_iff execAt_legacy isLegacyName_iff)

lemma decimal_digits: "c \<in> set (decimal n) \<Longrightarrow> 48 \<le> c \<and> c \<le> 57"
proof (induction n arbitrary: c rule: decimal.induct)
  case (1 n)
  show ?case
  proof (cases "n < 10")
    case True
    with "1.prems" show ?thesis by (subst (asm) decimal.simps) simp
  next
    case False
    with "1.prems" have "c \<in> set (decimal (n div 10)) \<or> c = 48 + n mod 10"
      by (subst (asm) decimal.simps) auto
    then show ?thesis
    proof
      assume "c \<in> set (decimal (n div 10))"
      with "1.IH" [OF False] show ?thesis by blast
    next
      assume "c = 48 + n mod 10"
      moreover have "n mod 10 < 10" by simp
      ultimately show ?thesis by linarith
    qed
  qed
qed

lemma legacy_has_letter: "isLegacyName s \<Longrightarrow> \<exists>c\<in>set s. asciiLower c = 101 \<or> asciiLower c = 112"
proof -
  assume "isLegacyName s"
  then obtain pre post where
    "map asciiLower s = pre @ js ''eslint'' @ post \<or> map asciiLower s = pre @ js ''prettier'' @ post"
    unfolding isLegacyName_def by blast
  then show ?thesis
  proof
    assume m: "map asciiLower s = pre @ js ''eslint'' @ post"
    have "101 \<in> set (pre @ js ''eslint'' @ post)" by (simp add: js_def)
    then have "101 \<in> set (map asciiLower s)" by (simp only: m)
    then show ?thesis by auto
  next
    assume m: "map asciiLower s = pre @ js ''prettier'' @ post"
    have "112 \<in> set (pre @ js ''prettier'' @ post)" by (simp add: js_def)
    then have "112 \<in> set (map asciiLower s)" by (simp only: m)
    then show ?thesis by auto
  qed
qed

lemma decimal_not_legacy: "\<not> isLegacyName (decimal n)"
proof
  assume "isLegacyName (decimal n)"
  then obtain c where c: "c \<in> set (decimal n)" and l: "asciiLower c = 101 \<or> asciiLower c = 112"
    using legacy_has_letter by blast
  from decimal_digits [OF c] have "asciiLower c = c" "c \<le> 57" by (simp_all add: asciiLower_def)
  with l show False by simp
qed

lemma fold_Set_add:
  "fold (\<lambda>x acc. if P x then Set_add acc x else acc) xs acc =
     acc @ filter (\<lambda>x. x \<notin> set acc) (firstSeen (filter P xs))"
proof (induction xs arbitrary: acc)
  case Nil
  show ?case by simp
next
  case (Cons x xs)
  show ?case
  proof (cases "P x")
    case False
    then show ?thesis using Cons.IH by simp
  next
    case True
    show ?thesis
    proof (cases "x \<in> set acc")
      case in_acc: True
      have "filter (\<lambda>y. y \<notin> set acc) (filter (\<lambda>y. y \<noteq> x) (firstSeen (filter P xs))) =
            filter (\<lambda>y. y \<notin> set acc) (firstSeen (filter P xs))"
        using in_acc by (auto intro: filter_cong)
      with True in_acc Cons.IH [of acc] show ?thesis by (simp add: Set_add_def)
    next
      case not_in: False
      have "filter (\<lambda>y. y \<notin> set (acc @ [x])) (firstSeen (filter P xs)) =
            filter (\<lambda>y. y \<notin> set acc) (filter (\<lambda>y. y \<noteq> x) (firstSeen (filter P xs)))"
        by (auto intro: filter_cong)
      with True not_in Cons.IH [of "acc @ [x]"] show ?thesis by (simp add: Set_add_def)
    qed
  qed
qed

lemma legacyOfField_fold:
  "legacyOfField pkg field legacy =
     fold (\<lambda>depName acc. if isLegacyName depName then Set_add acc depName else acc)
       (keysOfField pkg field) legacy"
  by (simp add: legacyOfField_def keysOfField_def test_legacy split: option.splits)

lemma fold_fields:
  "fold (legacyOfField pkg) fieldNames legacy =
     fold (\<lambda>depName acc. if isLegacyName depName then Set_add acc depName else acc)
       (concat (map (keysOfField pkg) fieldNames)) legacy"
  by (induction fieldNames arbitrary: legacy) (simp_all add: legacyOfField_fold)

lemma filter_keysOfField:
  "filter isLegacyName (keysOfField pkg field) =
     filter isLegacyName (case getProp pkg field of Some (JObj deps) \<Rightarrow> map fst deps | _ \<Rightarrow> [])"
proof -
  have "filter isLegacyName (map decimal ns) = []" for ns
    by (induction ns) (simp_all add: decimal_not_legacy)
  then show ?thesis
    by (simp add: keysOfField_def split: option.splits json.splits)
qed

section \<open>Properties of the manifest operations\<close>










section \<open>Claims about package-manager detection\<close>

text \<open>
  C2: when the manifest in the project root is a readable file that parses to an object
  whose \<open>packageManager\<close> is \<open>name@version\<close> with \<open>name\<close> one of the four keys of the
  manager table, detection returns the profile of that name, whatever else the file system
  holds; a manifest declaring \<open>pnpm@9.0.0\<close> beside a \<open>yarn.lock\<close> gives pnpm.
\<close>

theorem declared_manager_overrides_lockfiles:
  assumes "fs (packageJsonPath projectRoot) = Some (RegularFile raw)"
    and "parse raw = Inr (JObj kvs)"
    and "map_of kvs (js ''packageManager'') = Some (JStr (ident @ 64 # version))"
    and "map_of PACKAGE_MANAGERS ident = Some m"
  shows "detectPackageManager fs parse projectRoot = Profile m"
proof -
  have "beforeAt (ident @ 64 # version) = ident"
    using assms(4) by (simp add: known_name_no_at beforeAt_append)
  with assms have "extractFromPackageManagerField fs parse (Some (packageJsonPath projectRoot)) =
      Some (Profile m)"
    by (simp add: extractFromPackageManagerField_def readFileSync_def PACKAGE_MANAGERS_get_def)
  then show ?thesis by (simp add: detectPackageManager_def)
qed

theorem declared_manager_overrides_lockfiles_witness:
  "existsSync fsScenarioA (path_join [js ''app''] (js ''yarn.lock'')) \<and>
   map_of PACKAGE_MANAGERS (js ''pnpm'') = Some pnpm \<and>
   detectPackageManager fsScenarioA exampleParse [js ''app''] = Profile pnpm"
proof -
  have h1: \<open>fsScenarioA (packageJsonPath [js ''app'']) =
      Some (RegularFile (js ''{"packageManager":"pnpm@9.0.0"}''))\<close>
    by (simp add: fsScenarioA_def fs_eval)
  have h2: \<open>exampleParse (js ''{"packageManager":"pnpm@9.0.0"}'') =
      Inr (JObj [(js ''packageManager'', JStr (js ''pnpm@9.0.0''))])\<close>
    by (simp add: exampleParse_def js_def)
  have h3: "map_of [(js ''packageManager'', JStr (js ''pnpm@9.0.0''))] (js ''packageManager'') =
      Some (JStr (js ''pnpm'' @ 64 # js ''9.0.0''))"
    by (simp add: js_def)
  have h4: "map_of PACKAGE_MANAGERS (js ''pnpm'') = Some pnpm"
    by (simp add: PACKAGE_MANAGERS_def js_def)
  have e: "existsSync fsScenarioA (path_join [js ''app''] (js ''yarn.lock''))"
    by (simp add: fsScenarioA_def fs_eval)
  from declared_manager_overrides_lockfiles
         [where fs = fsScenarioA and parse = exampleParse and projectRoot = "[js ''app'']",
          OF h1 h2 h3 h4]
       h4 e
  show ?thesis by simp
qed

text \<open>
  C3, as stated: without a declared manager, detection returns the manager of the nearest
  lockfile. It fails: with \<open>yarn.lock\<close> in the working directory and \<open>pnpm-lock.yaml\<close> in
  its parent only, the nearest lockfile is yarn's and detection returns pnpm.
\<close>

theorem lockfile_priority_beats_distance:
  "existsSync fsNestedLockfiles (path_join [js ''repo'', js ''app''] (js ''yarn.lock'')) \<and>
   \<not> existsSync fsNestedLockfiles (path_join [js ''repo'', js ''app''] (js ''pnpm-lock.yaml'')) \<and>
   declaredName fsNestedLockfiles exampleParse [js ''repo'', js ''app''] = None \<and>
   declaredName fsNestedLockfiles exampleParse [js ''repo''] = None \<and>
   declaredName fsNestedLockfiles exampleParse [] = None \<and>
   nearestLockfileManager fsNestedLockfiles [js ''repo'', js ''app''] = yarn \<and>
   detectPackageManager fsNestedLockfiles exampleParse [js ''repo'', js ''app''] = Profile pnpm \<and>
   pm_id pnpm \<noteq> pm_id yarn"
  by (simp add: fsNestedLockfiles_def fs_eval detectPackageManager_def
      extractFromPackageManagerField_def declaredName_def exampleParse_def findUpwards.simps
      nearestLockfileManager_def PACKAGE_MANAGER_PRIORITY_def PACKAGE_MANAGERS_def
      pnpm_def yarn_def bun_def)

text \<open>
  C3, amended: when no manifest of the directory chain declares a name that
  \<open>PACKAGE_MANAGERS\<close> has a property for, detection returns the first manager, in the order
  pnpm, yarn, bun, whose lockfile exists in the working directory or in any directory above
  it, whatever the distances, and npm when none of the three lockfiles exists there.
\<close>

theorem lockfile_detection_by_priority:
  assumes "\<forall>dir\<in>set (ancestors projectRoot).
             case declaredName fs parse dir of
               None \<Rightarrow> True
             | Some ident \<Rightarrow> PACKAGE_MANAGERS_get ident = None"
  shows "detectPackageManager fs parse projectRoot =
           Profile (if existsUpwards fs projectRoot (js ''pnpm-lock.yaml'') then pnpm
                    else if existsUpwards fs projectRoot (js ''yarn.lock'') then yarn
                    else if existsUpwards fs projectRoot (js ''bun.lockb'') then bun
                    else npm)"
proof -
  have ex: "extractFromPackageManagerField fs parse (Some (path_join dir (js ''package.json''))) = None"
    if "dir \<in> set (ancestors projectRoot)" for dir
    using assms that by (auto simp: extract_declared split: option.splits)
  have local: "extractFromPackageManagerField fs parse (Some (packageJsonPath projectRoot)) = None"
    unfolding packageJsonPath_def by (rule ex) (rule ancestors_self)
  have up: "(case findUpwards fs projectRoot [js ''package.json''] of
               None \<Rightarrow> None
             | Some upstreamPkg \<Rightarrow>
                 if found_file upstreamPkg \<noteq> packageJsonPath projectRoot
                 then extractFromPackageManagerField fs parse (Some (found_file upstreamPkg))
                 else None) = None"
  proof (cases "findUpwards fs projectRoot [js ''package.json'']")
    case None
    then show ?thesis by simp
  next
    case (Some hit)
    from findUpwards_Some [OF Some]
    have "found_directory hit \<in> set (ancestors projectRoot)"
      and "found_file hit = path_join (found_directory hit) (js ''package.json'')"
      by auto
    with ex [of "found_directory hit"] Some show ?thesis by simp
  qed
  show ?thesis
    by (simp add: detectPackageManager_def local up lockfileLoop_priority)
qed

theorem lockfile_detection_by_priority_witness:
  "detectPackageManager fsYarnAbove exampleParse [js ''repo'', js ''app''] = Profile yarn"
proof -
  have h: "\<forall>dir\<in>set (ancestors [js ''repo'', js ''app'']).
             case declaredName fsYarnAbove exampleParse dir of
               None \<Rightarrow> True
             | Some ident \<Rightarrow> PACKAGE_MANAGERS_get ident = None"
    by (simp add: ancestors.simps fsYarnAbove_def fs_eval declaredName_def exampleParse_def)
  have e: "\<not> existsUpwards fsYarnAbove [js ''repo'', js ''app''] (js ''pnpm-lock.yaml'')"
    "existsUpwards fsYarnAbove [js ''repo'', js ''app''] (js ''yarn.lock'')"
    by (simp_all add: existsUpwards_def ancestors.simps fsYarnAbove_def fs_eval)
  from lockfile_detection_by_priority [OF h] e show ?thesis by simp
qed

text \<open>
  C10 says that detection returns one of the four profiles for every file system, a
  declared name that is no known manager being ignored. The claim is what the code sets out
  to do; the test \<open>if (PACKAGE_MANAGERS[id])\<close> also succeeds on a name that
  \<open>Object.prototype\<close> defines, and the inherited member is returned: for the declared
  name \<open>constructor\<close> the result is no profile.
\<close>

theorem inherited_member_returned:
  "detectPackageManager fsInheritedName exampleParse [js ''app''] =
     PrototypeMember (js ''constructor'')"
  by (simp add: fsInheritedName_def fs_eval detectPackageManager_def
      extractFromPackageManagerField_def exampleParse_def beforeAt_def PACKAGE_MANAGERS_get_def
      PACKAGE_MANAGERS_def Object_prototype_keys_def)

section \<open>Claims about the manifest\<close>

text \<open>
  C7: for every manifest object, \<open>findLegacyTools\<close> returns exactly the names of the four
  dependency groups that contain \<open>eslint\<close> or \<open>prettier\<close> without regard to ASCII case,
  each once, in first-seen order; for the manifest of scenario D it returns both names.
\<close>

theorem legacy_tools_exact:
  "findLegacyTools (JObj kvs) =
     Inr (firstSeen (filter isLegacyName (packageNames (JObj kvs))))"
proof -
  have "filter isLegacyName (concat (map (keysOfField (JObj kvs)) dependencyFields)) =
        filter isLegacyName (packageNames (JObj kvs))"
    unfolding packageNames_def filter_concat map_map
    by (rule arg_cong [where f = concat], rule map_cong) (simp_all add: filter_keysOfField)
  then show ?thesis
    by (simp add: findLegacyTools_def fold_fields fold_Set_add)
qed

theorem legacy_tools_exact_witness:
  "findLegacyTools
     (JObj [(js ''devDependencies'',
             JObj [(js ''eslint'', JStr (js ''^8.0.0'')),
                   (js ''eslint-config-foo'', JStr (js ''^1.0.0''))])]) =
   Inr [js ''eslint'', js ''eslint-config-foo'']"
  using legacy_tools_exact [of "[(js ''devDependencies'',
             JObj [(js ''eslint'', JStr (js ''^8.0.0'')),
                   (js ''eslint-config-foo'', JStr (js ''^1.0.0''))])]"]
  by (simp add: packageNames_def dependencyFields_def test_legacy [symmetric] execAt_def
      LEGACY_TOOL_PATTERN_def litCI_def js_def)




text \<open>
  C9: without a \<open>package.json\<close> in the project root, \<open>readPackageJson\<close> fails with a
  \<open>CliError\<close>, \<open>main\<close> prints its message and the process ends with code 1; with a
  \<open>package.json\<close> that \<open>JSON.parse\<close> rejects, the failure is a \<open>CliError\<close> whose message
  ends with the message of the parse error, and the process ends with code 1 as well.
\<close>

theorem manifest_errors_are_user_reported:
  "(fs (packageJsonPath projectRoot) = None \<longrightarrow>
      readPackageJson fs parse projectRoot =
        Inl (CliError (js ''No package.json found. Please run this command in your project root.'')) \<and>
      main fs parse projectRoot steps =
        \<lparr> errorOutput =
            [Message (js ''No package.json found. Please run this command in your project root.'')],
          exitCode = 1 \<rparr>) \<and>
   (fs (packageJsonPath projectRoot) = Some (RegularFile raw) \<and> parse raw = Inl msg \<longrightarrow>
      readPackageJson fs parse projectRoot =
        Inl (CliError (js ''Could not read or parse package.json: '' @ msg)) \<and>
      main fs parse projectRoot steps =
        \<lparr> errorOutput = [Message (js ''Could not read or parse package.json: '' @ msg)],
          exitCode = 1 \<rparr>)"
  by (simp add: readPackageJson_def main_def existsSync_def readFileSync_def)

theorem manifest_errors_are_user_reported_witness:
  "readPackageJson Map.empty exampleParse [js ''app''] =
     Inl (CliError (js ''No package.json found. Please run this command in your project root.'')) \<and>
   exitCode (main Map.empty exampleParse [js ''app''] (\<lambda>pkg. Inr ())) = 1 \<and>
   readPackageJson fsBrokenManifest exampleParse [js ''app''] =
     Inl (CliError (js ''Could not read or parse package.json: Unexpected end of JSON input'')) \<and>
   exitCode (main fsBrokenManifest exampleParse [js ''app''] (\<lambda>pkg. Inr ())) = 1"
proof -
  have h1: "Map.empty (packageJsonPath [js ''app'']) = None" by simp
  have h2: \<open>fsBrokenManifest (packageJsonPath [js ''app'']) = Some (RegularFile (js ''{"name":''))\<close>
    by (simp add: fsBrokenManifest_def fs_eval)
  have h3: \<open>exampleParse (js ''{"name":'') = Inl (js ''Unexpected end of JSON input'')\<close>
    by (simp add: exampleParse_def js_def)
  from manifest_errors_are_user_reported
         [where fs = Map.empty and projectRoot = "[js ''app'']" and parse = exampleParse
            and steps = "\<lambda>pkg. Inr ()"]
       h1
       manifest_errors_are_user_reported
         [where fs = fsBrokenManifest and projectRoot = "[js ''app'']" and parse = exampleParse
            and steps = "\<lambda>pkg. Inr ()" and raw = \<open>js ''{"name":''\<close>
            and msg = "js ''Unexpected end of JSON input''"]
       h2 h3
  show ?thesis by (simp add: js_def)
qed

end
